theory Spec2Isabelle
  imports Complex_Main "HOL-Library.Multiset"
begin

section \<open>Results and faults\<close>

text \<open>
  The library is Go. A call either returns or does not return normally. The ways
  a call of this library can fail to return are runtime faults of the language and
  of \<^verbatim>\<open>sync.RWMutex\<close>: a write to a nil map panics, an index past the end of
  a slice panics, acquiring a mutex that is held blocks the caller (for ever, in a
  sequential run), and unlocking a mutex that is not locked is a fatal error.
\<close>

datatype fault = NilMapWrite | IndexOutOfRange | Blocked | UnlockOfUnlocked

type_synonym 'a result = "fault + 'a"

text \<open>Sequencing: the second step runs on what the first returned, a fault ends the call.\<close>

definition and_then :: "'a result \<Rightarrow> ('a \<Rightarrow> 'b result) \<Rightarrow> 'b result" where
  "and_then r f = (case r of Inl e \<Rightarrow> Inl e | Inr x \<Rightarrow> f x)"

section \<open>Keys and zero values\<close>

text \<open>
  A map looks a key up with the \<^verbatim>\<open>==\<close> of its key type \<^verbatim>\<open>K\<close>. For most values that is
  identity. A floating-point NaN, and a struct, array or interface value that holds one,
  differs from every value, itself included: no lookup finds an entry stored under it, a
  write under it always adds an entry, and \<^verbatim>\<open>delete\<close> never removes one. The values of
  \<^verbatim>\<open>K\<close> are therefore \<open>Key x\<close>, for the values \<open>x\<close> equal to themselves, and \<open>NaN\<close>, for
  the others, which no operation of the library tells apart. For a key type without such
  values (\<^verbatim>\<open>string\<close>, \<^verbatim>\<open>int\<close>) only \<open>Key\<close> arises.
\<close>

datatype 'k key = Key 'k | NaN

text \<open>
  Every Go type has a zero value (\<^verbatim>\<open>var zero V\<close>, the value of a missing map entry, the
  fill of a fresh slice). It is the \<open>0\<close> of class \<open>zero\<close>: \<open>0\<close> for the numeric types, and
  the empty string for \<^verbatim>\<open>string\<close>.
\<close>

instantiation list :: (type) zero
begin
definition zero_list_def: "0 = ([] :: 'a list)"
instance ..
end

instantiation key :: (zero) zero
begin
definition zero_key_def: "0 = Key 0"
instance ..
end

section \<open>The content of a map\<close>

text \<open>
  The entries of a map object: \<open>found\<close> holds the entries under keys that equal
  themselves, at most one for each key; \<open>lost\<close> holds the values of the entries stored
  under \<open>NaN\<close>, of which there can be any number. The order of \<open>lost\<close> only numbers
  those entries; two contents are the same map when \<open>same_entries\<close> holds.
\<close>

record ('k, 'v) content =
  found :: "'k \<rightharpoonup> 'v"
  lost :: "'v list"

definition no_entries :: "('k, 'v) content" where
  "no_entries = \<lparr>found = Map.empty, lost = []\<rparr>"

definition same_entries :: "('k, 'v) content \<Rightarrow> ('k, 'v) content \<Rightarrow> bool" where
  "same_entries c c' = (found c = found c' \<and> mset (lost c) = mset (lost c'))"

text \<open>
  \<^verbatim>\<open>v, ok := m[key]\<close> is \<open>lookup\<close>; the index expression \<^verbatim>\<open>m[key]\<close> read as a value is
  the entry, or the zero value when there is none; \<^verbatim>\<open>len(m)\<close> counts the entries;
  \<^verbatim>\<open>m[key] = v\<close> on a map that is not nil is \<open>assign\<close>, \<^verbatim>\<open>delete(m, key)\<close> is \<open>remove\<close>.
\<close>

definition lookup :: "('k, 'v) content \<Rightarrow> 'k key \<Rightarrow> 'v option" where
  "lookup c key = (case key of Key k \<Rightarrow> found c k | NaN \<Rightarrow> None)"

definition index :: "('k, 'v::zero) content \<Rightarrow> 'k key \<Rightarrow> 'v" where
  "index c key = (case lookup c key of None \<Rightarrow> 0 | Some v \<Rightarrow> v)"

definition len :: "('k, 'v) content \<Rightarrow> nat" where
  "len c = card (dom (found c)) + length (lost c)"

definition assign :: "('k, 'v) content \<Rightarrow> 'k key \<Rightarrow> 'v \<Rightarrow> ('k, 'v) content" where
  "assign c key v =
     (case key of
        Key k \<Rightarrow> c\<lparr>found := (found c)(k \<mapsto> v)\<rparr>
      | NaN \<Rightarrow> c\<lparr>lost := lost c @ [v]\<rparr>)"

definition remove :: "('k, 'v) content \<Rightarrow> 'k key \<Rightarrow> ('k, 'v) content" where
  "remove c key =
     (case key of
        Key k \<Rightarrow> c\<lparr>found := (found c)(k := None)\<rparr>
      | NaN \<Rightarrow> c)"

text \<open>The entries of \<open>c\<close> that pass \<open>test\<close>; used to say what the loops below build.\<close>

definition passing :: "('k key \<Rightarrow> 'v \<Rightarrow> bool) \<Rightarrow> ('k, 'v) content \<Rightarrow> ('k, 'v) content" where
  "passing test c =
     \<lparr>found = (\<lambda>k. case found c k of None \<Rightarrow> None
                                    | Some v \<Rightarrow> if test (Key k) v then Some v else None),
      lost = filter (test NaN) (lost c)\<rparr>"

text \<open>The content \<open>c\<close> less the entries found under the listed keys.\<close>

definition without :: "('k, 'v) content \<Rightarrow> 'k key list \<Rightarrow> ('k, 'v) content" where
  "without c keys = c\<lparr>found := found c |` (- {k. Key k \<in> set keys})\<rparr>"

section \<open>The range loop over a map\<close>

text \<open>
  \<^verbatim>\<open>for k, v := range m { body }\<close> visits the entries of \<open>m\<close> in an order the runtime
  chooses. An entry is named by its slot: the key it is found under, or its number among
  the entries under \<open>NaN\<close>. The order is an argument of the model: a list \<open>ks\<close> of slots
  that \<open>enumerates\<close> the entries \<open>m\<close> has when the loop starts. The loop reads the map as
  it is when it reaches a slot: an entry removed before it is reached is not produced, and
  the value produced is the current one. An entry that the body adds to the map it ranges
  over may be produced or skipped, as the runtime chooses: a list that also names the slot
  of such an entry is a run that produces it. \<open>m\<close> reads the map out of the loop's state
  \<open>s\<close>; the body may fault.
\<close>

datatype 'k slot = Under 'k | NthNaN nat

definition slot_key :: "'k slot \<Rightarrow> 'k key" where
  "slot_key sl = (case sl of Under k \<Rightarrow> Key k | NthNaN i \<Rightarrow> NaN)"

definition slot_entry :: "('k, 'v) content \<Rightarrow> 'k slot \<Rightarrow> 'v option" where
  "slot_entry c sl =
     (case sl of
        Under k \<Rightarrow> found c k
      | NthNaN i \<Rightarrow> if i < length (lost c) then Some (lost c ! i) else None)"

definition slots :: "('k, 'v) content \<Rightarrow> 'k slot set" where
  "slots c = Under ` dom (found c) \<union> NthNaN ` {..<length (lost c)}"

definition enumerates :: "'k slot list \<Rightarrow> ('k, 'v) content \<Rightarrow> bool" where
  "enumerates ks c = (distinct ks \<and> set ks = slots c)"

fun for_range :: "('s \<Rightarrow> ('k, 'v) content) \<Rightarrow> ('k key \<Rightarrow> 'v \<Rightarrow> 's \<Rightarrow> 's result) \<Rightarrow> 'k slot list \<Rightarrow> 's \<Rightarrow> 's result" where
  "for_range m body [] s = Inr s"
| "for_range m body (sl # ks) s =
     (case slot_entry (m s) sl of
        None \<Rightarrow> for_range m body ks s
      | Some v \<Rightarrow> (case body (slot_key sl) v s of
                    Inl e \<Rightarrow> Inl e
                  | Inr s' \<Rightarrow> for_range m body ks s'))"

text \<open>The numbers of the \<open>NaN\<close> entries in a visit, in the order of the visit.\<close>

fun nan_slots :: "'k slot list \<Rightarrow> nat list" where
  "nan_slots [] = []"
| "nan_slots (Under k # ks) = nan_slots ks"
| "nan_slots (NthNaN i # ks) = i # nan_slots ks"

section \<open>Plain maps: a heap of map objects\<close>

text \<open>
  A Go map value is nil or a reference to a map object; two values may refer to the same
  object, and a write through one is seen through the other. The helpers below are
  therefore modelled over a heap: \<open>cells h a\<close> is the content of the object at address
  \<open>a\<close>, and the addresses below \<open>next_addr h\<close> are the allocated ones. \<^verbatim>\<open>make\<close>
  allocates the next address with no entries.
\<close>

type_synonym addr = nat

datatype mapref = NilMap | MapAt addr

record ('k, 'v) heap =
  cells :: "addr \<Rightarrow> ('k, 'v) content"
  next_addr :: addr

definition allocated :: "('k, 'v) heap \<Rightarrow> mapref \<Rightarrow> bool" where
  "allocated h m = (case m of NilMap \<Rightarrow> True | MapAt a \<Rightarrow> a < next_addr h)"

definition make_map :: "('k, 'v) heap \<Rightarrow> ('k, 'v) heap \<times> mapref" where
  "make_map h = (h\<lparr>cells := (cells h)(next_addr h := no_entries), next_addr := Suc (next_addr h)\<rparr>,
                 MapAt (next_addr h))"

text \<open>Reading a nil map finds no entry; \<open>entries\<close> is what a read of \<open>m\<close> sees.\<close>

definition entries :: "('k, 'v) heap \<Rightarrow> mapref \<Rightarrow> ('k, 'v) content" where
  "entries h m = (case m of NilMap \<Rightarrow> no_entries | MapAt a \<Rightarrow> cells h a)"

text \<open>\<^verbatim>\<open>m[k] = v\<close>: a write to a nil map panics.\<close>

definition store :: "('k, 'v) heap \<Rightarrow> mapref \<Rightarrow> 'k key \<Rightarrow> 'v \<Rightarrow> ('k, 'v) heap result" where
  "store h m key v =
     (case m of
        NilMap \<Rightarrow> Inl NilMapWrite
      | MapAt a \<Rightarrow> Inr (h\<lparr>cells := (cells h)(a := assign (cells h a) key v)\<rparr>))"

text \<open>\<^verbatim>\<open>delete(m, k)\<close>: a no-op on a nil map and on a key that is not found.\<close>

definition delete :: "('k, 'v) heap \<Rightarrow> mapref \<Rightarrow> 'k key \<Rightarrow> ('k, 'v) heap" where
  "delete h m key =
     (case m of
        NilMap \<Rightarrow> h
      | MapAt a \<Rightarrow> h\<lparr>cells := (cells h)(a := remove (cells h a) key)\<rparr>)"

subsection \<open>Clone, Filter, Copy\<close>

text \<open>
  \<^verbatim>\<open>Clone\<close>: nil for nil; otherwise a fresh map \<open>r\<close> that receives every entry the
  loop over \<open>m\<close> produces.
\<close>

definition Clone :: "('k, 'v) heap \<Rightarrow> mapref \<Rightarrow> 'k slot list \<Rightarrow> (('k, 'v) heap \<times> mapref) result" where
  "Clone h m ks =
     (if m = NilMap then Inr (h, NilMap)
      else (case make_map h of (h1, r) \<Rightarrow>
        and_then (for_range (\<lambda>h'. entries h' m) (\<lambda>k v h'. store h' r k v) ks h1)
          (\<lambda>h2. Inr (h2, r))))"

text \<open>\<^verbatim>\<open>Filter\<close>: nil for nil; otherwise a fresh map that receives the entries passing \<open>test\<close>.\<close>

definition Filter :: "('k, 'v) heap \<Rightarrow> mapref \<Rightarrow> ('k key \<Rightarrow> 'v \<Rightarrow> bool) \<Rightarrow> 'k slot list \<Rightarrow> (('k, 'v) heap \<times> mapref) result" where
  "Filter h m test ks =
     (if m = NilMap then Inr (h, NilMap)
      else (case make_map h of (h1, r) \<Rightarrow>
        and_then (for_range (\<lambda>h'. entries h' m)
                    (\<lambda>k v h'. if test k v then store h' r k v else Inr h') ks h1)
          (\<lambda>h2. Inr (h2, r))))"


section \<open>Set\<close>





section \<open>The reader-writer lock\<close>

text \<open>
  \<^verbatim>\<open>sync.RWMutex\<close> of the Go standard library, as one thread sees it: free, held by a
  number of readers, or held by a writer. A writer needs the lock free; a reader needs it
  not held by a writer. Releasing a lock that is not held that way is a fatal error.
\<close>

datatype RWMutex = Unlocked | ReadLocked nat | WriteLocked

definition rw_Lock :: "RWMutex \<Rightarrow> RWMutex result" where
  "rw_Lock m = (if m = Unlocked then Inr WriteLocked else Inl Blocked)"

definition rw_Unlock :: "RWMutex \<Rightarrow> RWMutex result" where
  "rw_Unlock m = (if m = WriteLocked then Inr Unlocked else Inl UnlockOfUnlocked)"

definition rw_RLock :: "RWMutex \<Rightarrow> RWMutex result" where
  "rw_RLock m =
     (case m of
        Unlocked \<Rightarrow> Inr (ReadLocked 1)
      | ReadLocked n \<Rightarrow> Inr (ReadLocked (Suc n))
      | WriteLocked \<Rightarrow> Inl Blocked)"

definition rw_RUnlock :: "RWMutex \<Rightarrow> RWMutex result" where
  "rw_RUnlock m =
     (case m of
        ReadLocked n \<Rightarrow> Inr (if n \<le> 1 then Unlocked else ReadLocked (n - 1))
      | _ \<Rightarrow> Inl UnlockOfUnlocked)"

section \<open>Sync: the mutex-guarded map\<close>

text \<open>
  \<^verbatim>\<open>Sync\<close> is a struct of a lock and a map. The map is private to the struct and no
  method hands it out, so the field is modelled by what it holds: \<open>None\<close> is the nil
  map of the zero-value struct, \<open>Some c\<close> a map with content \<open>c\<close>, as \<^verbatim>\<open>NewSync\<close> and
  \<^verbatim>\<open>NewObservable\<close> allocate it. \<open>held\<close> is what a read of the field sees, \<open>put_entry\<close> is
  \<^verbatim>\<open>s.data[key] = val\<close> and \<open>drop_entry\<close> is \<^verbatim>\<open>delete(s.data, key)\<close>. A method with a pointer
  receiver takes the struct and returns it updated, beside its result. The map that
  \<^verbatim>\<open>Filter\<close> returns is a new one, given by its content.
\<close>

record ('k, 'v) Sync =
  rw :: RWMutex
  data :: "('k, 'v) content option"

definition held :: "('k, 'v) Sync \<Rightarrow> ('k, 'v) content" where
  "held s = (case data s of None \<Rightarrow> no_entries | Some c \<Rightarrow> c)"

definition put_entry :: "('k, 'v) Sync \<Rightarrow> 'k key \<Rightarrow> 'v \<Rightarrow> ('k, 'v) Sync result" where
  "put_entry s key val =
     (case data s of
        None \<Rightarrow> Inl NilMapWrite
      | Some c \<Rightarrow> Inr (s\<lparr>data := Some (assign c key val)\<rparr>))"

definition drop_entry :: "('k, 'v) Sync \<Rightarrow> 'k key \<Rightarrow> ('k, 'v) Sync" where
  "drop_entry s key =
     (case data s of
        None \<Rightarrow> s
      | Some c \<Rightarrow> s\<lparr>data := Some (remove c key)\<rparr>)"

definition NewSync :: "('k, 'v) Sync" where
  "NewSync = \<lparr>rw = Unlocked, data = Some no_entries\<rparr>"

text \<open>
  \<^verbatim>\<open>Keys\<close> and \<^verbatim>\<open>Values\<close> fill a slice of \<^verbatim>\<open>len(s.data)\<close> zero values by index;
  a write past its end would panic.
\<close>

definition Sync_Keys :: "('k::zero, 'v) Sync \<Rightarrow> 'k slot list \<Rightarrow> ('k key list \<times> ('k, 'v) Sync) result" where
  "Sync_Keys s ks =
     and_then (rw_RLock (rw s)) (\<lambda>l.
     and_then (for_range (\<lambda>_. held s)
                 (\<lambda>k v (i, keys). if i < length keys then Inr (Suc i, keys[i := k])
                                   else Inl IndexOutOfRange)
                 ks (0, replicate (len (held s)) 0)) (\<lambda>(i, keys).
     and_then (rw_RUnlock l) (\<lambda>l'.
     Inr (keys, s\<lparr>rw := l'\<rparr>))))"

definition Sync_Values :: "('k, 'v::zero) Sync \<Rightarrow> 'k slot list \<Rightarrow> ('v list \<times> ('k, 'v) Sync) result" where
  "Sync_Values s ks =
     and_then (rw_RLock (rw s)) (\<lambda>l.
     and_then (for_range (\<lambda>_. held s)
                 (\<lambda>k v (i, values). if i < length values then Inr (Suc i, values[i := v])
                                     else Inl IndexOutOfRange)
                 ks (0, replicate (len (held s)) 0)) (\<lambda>(i, values).
     and_then (rw_RUnlock l) (\<lambda>l'.
     Inr (values, s\<lparr>rw := l'\<rparr>))))"

text \<open>\<^verbatim>\<open>Size\<close> and \<^verbatim>\<open>Get\<close> read the map without taking the lock.\<close>

definition Sync_Size :: "('k, 'v) Sync \<Rightarrow> int" where
  "Sync_Size s = int (len (held s))"

definition Sync_Get :: "('k, 'v::zero) Sync \<Rightarrow> 'k key \<Rightarrow> 'v" where
  "Sync_Get s key = index (held s) key"

definition Sync_set :: "('k, 'v) Sync \<Rightarrow> 'k key \<Rightarrow> 'v \<Rightarrow> ('k, 'v) Sync result" where
  "Sync_set s key val = put_entry s key val"

definition Sync_Set :: "('k, 'v) Sync \<Rightarrow> 'k key \<Rightarrow> 'v \<Rightarrow> ('k, 'v) Sync result" where
  "Sync_Set s key val =
     and_then (rw_Lock (rw s)) (\<lambda>l.
     and_then (Sync_set (s\<lparr>rw := l\<rparr>) key val) (\<lambda>s1.
     and_then (rw_Unlock (rw s1)) (\<lambda>l'.
     Inr (s1\<lparr>rw := l'\<rparr>))))"

text \<open>
  \<^verbatim>\<open>Each\<close> calls \<open>f\<close> for its effect: \<open>f k v\<close> is a step on the state \<open>w\<close> outside the
  map that the callback acts on. The tests of \<^verbatim>\<open>Filter\<close> and \<^verbatim>\<open>Find\<close> and the step of
  \<^verbatim>\<open>ReduceSync\<close> are functions of their arguments.
\<close>

definition Sync_Each :: "('k, 'v) Sync \<Rightarrow> ('k key \<Rightarrow> 'v \<Rightarrow> 'w \<Rightarrow> 'w) \<Rightarrow> 'k slot list \<Rightarrow> 'w \<Rightarrow> ('w \<times> ('k, 'v) Sync) result" where
  "Sync_Each s f ks w =
     and_then (rw_RLock (rw s)) (\<lambda>l.
     and_then (for_range (\<lambda>_. held s) (\<lambda>k v w'. Inr (f k v w')) ks w) (\<lambda>w'.
     and_then (rw_RUnlock l) (\<lambda>l'.
     Inr (w', s\<lparr>rw := l'\<rparr>))))"

definition Sync_Filter :: "('k, 'v) Sync \<Rightarrow> ('k key \<Rightarrow> 'v \<Rightarrow> bool) \<Rightarrow> 'k slot list \<Rightarrow> (('k, 'v) content \<times> ('k, 'v) Sync) result" where
  "Sync_Filter s f ks =
     (let filtered = no_entries in
     and_then (rw_RLock (rw s)) (\<lambda>l.
     and_then (for_range (\<lambda>_. held s)
                 (\<lambda>k v filtered'. Inr (if f k v then assign filtered' k v else filtered'))
                 ks filtered) (\<lambda>filtered'.
     and_then (rw_RUnlock l) (\<lambda>l'.
     Inr (filtered', s\<lparr>rw := l'\<rparr>)))))"

text \<open>The loop of \<^verbatim>\<open>Find\<close> returns at the first entry that passes, the zero values at the end.\<close>

fun Find_loop :: "('k key \<Rightarrow> 'v \<Rightarrow> bool) \<Rightarrow> ('k, 'v) content \<Rightarrow> 'k slot list \<Rightarrow> ('k::zero) key \<times> ('v::zero)" where
  "Find_loop f c [] = (0, 0)"
| "Find_loop f c (sl # ks) =
     (case slot_entry c sl of
        None \<Rightarrow> Find_loop f c ks
      | Some v \<Rightarrow> if f (slot_key sl) v then (slot_key sl, v) else Find_loop f c ks)"

definition Sync_Find :: "('k::zero, 'v::zero) Sync \<Rightarrow> ('k key \<Rightarrow> 'v \<Rightarrow> bool) \<Rightarrow> 'k slot list \<Rightarrow> (('k key \<times> 'v) \<times> ('k, 'v) Sync) result" where
  "Sync_Find s f ks =
     and_then (rw_RLock (rw s)) (\<lambda>l.
     (let hit = Find_loop f (held s) ks in
     and_then (rw_RUnlock l) (\<lambda>l'.
     Inr (hit, s\<lparr>rw := l'\<rparr>))))"

text \<open>\<^verbatim>\<open>ReduceSync\<close> takes the pointer: \<open>None\<close> is the nil pointer.\<close>

definition ReduceSync :: "('k, 'v) Sync option \<Rightarrow> 'a \<Rightarrow> ('a \<Rightarrow> 'k key \<Rightarrow> 'v \<Rightarrow> 'a) \<Rightarrow> 'k slot list \<Rightarrow> ('a \<times> ('k, 'v) Sync option) result" where
  "ReduceSync sp a f ks =
     (case sp of
        None \<Rightarrow> Inr (a, None)
      | Some s \<Rightarrow>
          and_then (rw_RLock (rw s)) (\<lambda>l.
          and_then (for_range (\<lambda>_. held s) (\<lambda>k v a'. Inr (f a' k v)) ks a) (\<lambda>a'.
          and_then (rw_RUnlock l) (\<lambda>l'.
          Inr (a', Some (s\<lparr>rw := l'\<rparr>))))))"

definition Sync_Delete :: "('k, 'v) Sync \<Rightarrow> 'k key list \<Rightarrow> ('k, 'v) Sync result" where
  "Sync_Delete s keys =
     and_then (rw_Lock (rw s)) (\<lambda>l.
     (let s1 = foldl (\<lambda>s' key. drop_entry s' key) (s\<lparr>rw := l\<rparr>) keys in
     and_then (rw_Unlock (rw s1)) (\<lambda>l'.
     Inr (s1\<lparr>rw := l'\<rparr>))))"

section \<open>Observable: the map that notifies\<close>

text \<open>
  An observer is a value with a method \<^verbatim>\<open>Observe(id, new, old)\<close>; what the method does is
  the observer's own business and lies outside the map. The model keeps observers as
  values of a type \<open>'o\<close> and records every invocation: \<open>calls\<close> is the history of the
  \<^verbatim>\<open>Observe\<close> calls the map has made, oldest first. A call is recorded with its receiver,
  its three arguments, and the entries the map holds while the observer runs (what
  \<^verbatim>\<open>Get\<close> and \<^verbatim>\<open>Size\<close>, which take no lock, would show it). \<open>calls\<close> is not a field of
  the Go struct; \<open>sync\<close> and \<open>obs\<close> are.
\<close>

datatype ('o, 'k, 'v) call =
  Observe (call_observer: 'o) (call_id: "'k key") (call_new: 'v) (call_old: 'v)
    (call_data: "('k, 'v) content")

record ('o, 'k, 'v) Observable =
  sync :: "('k, 'v) Sync"
  obs :: "'o list"
  calls :: "('o, 'k, 'v) call list"


text \<open>One invocation \<^verbatim>\<open>o.Observe(key, new, old)\<close>, and the loop of \<^verbatim>\<open>callback\<close> over the observers.\<close>

definition invoke :: "('o, 'k, 'v) Observable \<Rightarrow> 'o \<Rightarrow> 'k key \<Rightarrow> 'v \<Rightarrow> 'v \<Rightarrow> ('o, 'k, 'v) Observable" where
  "invoke ob f key new old = ob\<lparr>calls := calls ob @ [Observe f key new old (held (sync ob))]\<rparr>"

definition callback :: "('o, 'k, 'v) Observable \<Rightarrow> 'k key \<Rightarrow> 'v \<Rightarrow> 'v \<Rightarrow> ('o, 'k, 'v) Observable" where
  "callback ob key new old = foldl (\<lambda>ob' f. invoke ob' f key new old) ob (obs ob)"

text \<open>\<^verbatim>\<open>set\<close> notifies first and writes second: on the nil map the write panics after the calls.\<close>

definition Observable_set :: "('o, 'k, 'v::zero) Observable \<Rightarrow> 'k key \<Rightarrow> 'v \<Rightarrow> ('o, 'k, 'v) Observable result" where
  "Observable_set ob key val =
     (let ob1 = callback ob key val (index (held (sync ob)) key) in
      and_then (put_entry (sync ob1) key val) (\<lambda>s.
      Inr (ob1\<lparr>sync := s\<rparr>)))"

text \<open>The read-only methods hand the call to the embedded \<^verbatim>\<open>Sync\<close>.\<close>

definition Observable_Keys :: "('o, 'k::zero, 'v) Observable \<Rightarrow> 'k slot list \<Rightarrow> ('k key list \<times> ('o, 'k, 'v) Observable) result" where
  "Observable_Keys ob ks = and_then (Sync_Keys (sync ob) ks) (\<lambda>(keys, s). Inr (keys, ob\<lparr>sync := s\<rparr>))"

definition Observable_Values :: "('o, 'k, 'v::zero) Observable \<Rightarrow> 'k slot list \<Rightarrow> ('v list \<times> ('o, 'k, 'v) Observable) result" where
  "Observable_Values ob ks = and_then (Sync_Values (sync ob) ks) (\<lambda>(values, s). Inr (values, ob\<lparr>sync := s\<rparr>))"

definition Observable_Size :: "('o, 'k, 'v) Observable \<Rightarrow> int" where
  "Observable_Size ob = Sync_Size (sync ob)"

definition Observable_Get :: "('o, 'k, 'v::zero) Observable \<Rightarrow> 'k key \<Rightarrow> 'v" where
  "Observable_Get ob key = Sync_Get (sync ob) key"

definition Observable_Set :: "('o, 'k, 'v::zero) Observable \<Rightarrow> 'k key \<Rightarrow> 'v \<Rightarrow> ('o, 'k, 'v) Observable result" where
  "Observable_Set ob key val =
     and_then (rw_Lock (rw (sync ob))) (\<lambda>l.
     and_then (Observable_set (ob\<lparr>sync := (sync ob)\<lparr>rw := l\<rparr>\<rparr>) key val) (\<lambda>ob1.
     and_then (rw_Unlock (rw (sync ob1))) (\<lambda>l'.
     Inr (ob1\<lparr>sync := (sync ob1)\<lparr>rw := l'\<rparr>\<rparr>))))"


definition Observable_Each :: "('o, 'k, 'v) Observable \<Rightarrow> ('k key \<Rightarrow> 'v \<Rightarrow> 'w \<Rightarrow> 'w) \<Rightarrow> 'k slot list \<Rightarrow> 'w \<Rightarrow> ('w \<times> ('o, 'k, 'v) Observable) result" where
  "Observable_Each ob f ks w = and_then (Sync_Each (sync ob) f ks w) (\<lambda>(w', s). Inr (w', ob\<lparr>sync := s\<rparr>))"

definition Observable_Filter :: "('o, 'k, 'v) Observable \<Rightarrow> ('k key \<Rightarrow> 'v \<Rightarrow> bool) \<Rightarrow> 'k slot list \<Rightarrow> (('k, 'v) content \<times> ('o, 'k, 'v) Observable) result" where
  "Observable_Filter ob f ks = and_then (Sync_Filter (sync ob) f ks) (\<lambda>(filtered, s). Inr (filtered, ob\<lparr>sync := s\<rparr>))"

definition Observable_Find :: "('o, 'k::zero, 'v::zero) Observable \<Rightarrow> ('k key \<Rightarrow> 'v \<Rightarrow> bool) \<Rightarrow> 'k slot list \<Rightarrow> (('k key \<times> 'v) \<times> ('o, 'k, 'v) Observable) result" where
  "Observable_Find ob f ks = and_then (Sync_Find (sync ob) f ks) (\<lambda>(hit, s). Inr (hit, ob\<lparr>sync := s\<rparr>))"

text \<open>\<^verbatim>\<open>ReduceObservable\<close> passes \<^verbatim>\<open>&o.sync\<close>, which is never the nil pointer.\<close>

definition ReduceObservable :: "('o, 'k, 'v) Observable \<Rightarrow> 'a \<Rightarrow> ('a \<Rightarrow> 'k key \<Rightarrow> 'v \<Rightarrow> 'a) \<Rightarrow> 'k slot list \<Rightarrow> ('a \<times> ('o, 'k, 'v) Observable) result" where
  "ReduceObservable ob a f ks =
     and_then (ReduceSync (Some (sync ob)) a f ks) (\<lambda>(a', sp).
       Inr (a', case sp of None \<Rightarrow> ob | Some s \<Rightarrow> ob\<lparr>sync := s\<rparr>))"


definition Observable_DeleteFunc :: "('o, 'k, 'v::zero) Observable \<Rightarrow> ('k key \<Rightarrow> 'v \<Rightarrow> bool) \<Rightarrow> 'k slot list \<Rightarrow> ('o, 'k, 'v) Observable result" where
  "Observable_DeleteFunc ob del ks =
     and_then (rw_Lock (rw (sync ob))) (\<lambda>l.
     and_then (for_range (\<lambda>ob'. held (sync ob'))
                 (\<lambda>k v ob'. Inr (if del k v
                    then (let ob2 = callback ob' k 0 v in
                          ob2\<lparr>sync := drop_entry (sync ob2) k\<rparr>)
                    else ob'))
                 ks (ob\<lparr>sync := (sync ob)\<lparr>rw := l\<rparr>\<rparr>)) (\<lambda>ob1.
     and_then (rw_Unlock (rw (sync ob1))) (\<lambda>l'.
     Inr (ob1\<lparr>sync := (sync ob1)\<lparr>rw := l'\<rparr>\<rparr>))))"

text \<open>
  \<^verbatim>\<open>Lock\<close> runs the caller's function \<open>f\<close> under the write lock and hands it \<^verbatim>\<open>o.set\<close>.
  \<open>f\<close> is a step on the map that may use the setter it is given, and ends where the
  setter panics.
\<close>

definition Observable_Lock :: "('o, 'k, 'v::zero) Observable \<Rightarrow> (('k key \<Rightarrow> 'v \<Rightarrow> ('o, 'k, 'v) Observable \<Rightarrow> ('o, 'k, 'v) Observable result) \<Rightarrow> ('o, 'k, 'v) Observable \<Rightarrow> ('o, 'k, 'v) Observable result) \<Rightarrow> ('o, 'k, 'v) Observable result" where
  "Observable_Lock ob f =
     and_then (rw_Lock (rw (sync ob))) (\<lambda>l.
     and_then (f (\<lambda>key val ob'. Observable_set ob' key val) (ob\<lparr>sync := (sync ob)\<lparr>rw := l\<rparr>\<rparr>)) (\<lambda>ob1.
     and_then (rw_Unlock (rw (sync ob1))) (\<lambda>l'.
     Inr (ob1\<lparr>sync := (sync ob1)\<lparr>rw := l'\<rparr>\<rparr>))))"

section \<open>Concrete states\<close>


definition two_maps :: "(nat, nat) heap" where
  "two_maps = \<lparr>cells = (\<lambda>a. no_entries)
                 (0 := \<lparr>found = [1 \<mapsto> 2, 3 \<mapsto> 4], lost = []\<rparr>,
                  1 := \<lparr>found = [1 \<mapsto> 9, 5 \<mapsto> 6], lost = []\<rparr>),
               next_addr = 2\<rparr>"

definition nan_map :: "(real, int) heap" where
  "nan_map = \<lparr>cells = (\<lambda>a. no_entries)(0 := \<lparr>found = [1 \<mapsto> 10], lost = [20]\<rparr>),
              next_addr = 1\<rparr>"


definition watched :: "(string, string, int) Observable" where
  "watched = \<lparr>sync = \<lparr>rw = Unlocked, data = Some \<lparr>found = [''a'' \<mapsto> 1, ''b'' \<mapsto> 2], lost = []\<rparr>\<rparr>,
              obs = [''f'', ''g''], calls = []\<rparr>"

definition watched_nan :: "(string, real, int) Observable" where
  "watched_nan = \<lparr>sync = \<lparr>rw = Unlocked, data = Some \<lparr>found = [1 \<mapsto> 10], lost = [20]\<rparr>\<rparr>,
                  obs = [''f''], calls = []\<rparr>"

definition every_entry :: "'k key \<Rightarrow> 'v \<Rightarrow> bool" where
  "every_entry k v = True"


section \<open>The loops\<close>

text \<open>What each loop of the library computes, for every order of the visit.\<close>

lemma for_range_select_store:
  assumes "\<forall>i \<in> set (nan_slots ks). i < length (lost (entries h src))"
  shows "for_range (\<lambda>h'. entries h' src) (\<lambda>k v h'. if test k v then store h' (MapAt d) k v else Inr h') ks h
   = Inr (h\<lparr>cells := (cells h)(d := (cells h d)
        \<lparr>found := found (cells h d) ++ (found (passing test (entries h src)) |` {k. Under k \<in> set ks}),
         lost := lost (cells h d) @ filter (test NaN) (map (nth (lost (entries h src))) (nan_slots ks))\<rparr>)\<rparr>)"
  using assms
proof (induction ks arbitrary: h)
  case Nil
  show ?case by simp
next
  case (Cons sl ks)
  let ?loop = "for_range (\<lambda>h'. entries h' src) (\<lambda>k v h'. if test k v then store h' (MapAt d) k v else Inr h')"
  let ?c = "entries h src"
  show ?case
  proof (cases sl)
    case (Under k)
    have js: "nan_slots (sl # ks) = nan_slots ks" using Under by simp
    have bound: "\<forall>i \<in> set (nan_slots ks). i < length (lost ?c)"
      using Cons.prems js by simp
    show ?thesis
    proof (cases "found (passing test ?c) k")
      case None
      have step: "?loop (sl # ks) h = ?loop ks h"
        using None Under by (simp add: passing_def slot_entry_def slot_key_def split: option.splits if_splits)
      have same: "found (passing test ?c) |` {k'. Under k' \<in> set (sl # ks)}
                = found (passing test ?c) |` {k'. Under k' \<in> set ks}"
        using None Under by (auto simp: fun_eq_iff restrict_map_def)
      show ?thesis unfolding step same js by (rule Cons.IH [OF bound])
    next
      case (Some v)
      define h1 where "h1 = h\<lparr>cells := (cells h)(d := (cells h d)\<lparr>found := (found (cells h d))(k \<mapsto> v)\<rparr>)\<rparr>"
      have kv: "found ?c k = Some v" "test (Key k) v"
        using Some by (auto simp: passing_def split: option.splits if_splits)
      have e1: "entries h1 src = entries h src"
        using kv(1) by (cases src) (auto simp: h1_def entries_def fun_upd_idem)
      have step: "?loop (sl # ks) h = ?loop ks h1"
        using kv Under by (simp add: store_def h1_def slot_entry_def slot_key_def assign_def)
      have ih: "?loop ks h1 = Inr (h1\<lparr>cells := (cells h1)(d := (cells h1 d)
        \<lparr>found := found (cells h1 d) ++ (found (passing test (entries h1 src)) |` {k. Under k \<in> set ks}),
         lost := lost (cells h1 d) @ filter (test NaN) (map (nth (lost (entries h1 src))) (nan_slots ks))\<rparr>)\<rparr>)"
        by (rule Cons.IH) (simp add: e1 bound)
      have f: "(found (cells h d))(k \<mapsto> v) ++ (found (passing test ?c) |` {k. Under k \<in> set ks})
             = found (cells h d) ++ (found (passing test ?c) |` {k'. Under k' \<in> set (sl # ks)})"
        using Some Under by (auto simp: fun_eq_iff map_add_def restrict_map_def split: option.splits)
      have same: "h1\<lparr>cells := (cells h1)(d := (cells h1 d)
        \<lparr>found := found (cells h1 d) ++ (found (passing test (entries h1 src)) |` {k. Under k \<in> set ks}),
         lost := lost (cells h1 d) @ filter (test NaN) (map (nth (lost (entries h1 src))) (nan_slots ks))\<rparr>)\<rparr>
        = h\<lparr>cells := (cells h)(d := (cells h d)
        \<lparr>found := found (cells h d) ++ (found (passing test ?c) |` {k'. Under k' \<in> set (sl # ks)}),
         lost := lost (cells h d) @ filter (test NaN) (map (nth (lost ?c)) (nan_slots (sl # ks)))\<rparr>)\<rparr>"
        unfolding e1 js f [symmetric] by (simp add: h1_def)
      show ?thesis unfolding step ih same ..
    qed
  next
    case (NthNaN i)
    have js: "nan_slots (sl # ks) = i # nan_slots ks" using NthNaN by simp
    have i: "i < length (lost ?c)" and bound: "\<forall>j \<in> set (nan_slots ks). j < length (lost ?c)"
      using Cons.prems js by simp_all
    have same_found: "{k'. Under k' \<in> set (sl # ks)} = {k'. Under k' \<in> set ks}"
      using NthNaN by auto
    let ?v = "lost ?c ! i"
    show ?thesis
    proof (cases "test NaN ?v")
      case False
      have step: "?loop (sl # ks) h = ?loop ks h"
        using False NthNaN i by (simp add: slot_entry_def slot_key_def)
      show ?thesis
        unfolding step same_found js using False Cons.IH [OF bound] by simp
    next
      case True
      define h1 where "h1 = h\<lparr>cells := (cells h)(d := (cells h d)\<lparr>lost := lost (cells h d) @ [?v]\<rparr>)\<rparr>"
      have step: "?loop (sl # ks) h = ?loop ks h1"
        using True NthNaN i by (simp add: store_def h1_def slot_entry_def slot_key_def assign_def)
      have ef: "found (entries h1 src) = found ?c"
        by (cases src) (auto simp: h1_def entries_def)
      have el: "\<exists>ys. lost (entries h1 src) = lost ?c @ ys"
        by (cases src) (auto simp: h1_def entries_def)
      then obtain ys where ys: "lost (entries h1 src) = lost ?c @ ys" ..
      have bound1: "\<forall>j \<in> set (nan_slots ks). j < length (lost (entries h1 src))"
        using bound ys by auto
      have nth_same: "map (nth (lost (entries h1 src))) (nan_slots ks) = map (nth (lost ?c)) (nan_slots ks)"
        using bound ys by (auto simp: nth_append)
      have pf: "found (passing test (entries h1 src)) = found (passing test ?c)"
        using ef by (simp add: passing_def)
      have ih: "?loop ks h1 = Inr (h1\<lparr>cells := (cells h1)(d := (cells h1 d)
        \<lparr>found := found (cells h1 d) ++ (found (passing test (entries h1 src)) |` {k. Under k \<in> set ks}),
         lost := lost (cells h1 d) @ filter (test NaN) (map (nth (lost (entries h1 src))) (nan_slots ks))\<rparr>)\<rparr>)"
        by (rule Cons.IH [OF bound1])
      have same: "h1\<lparr>cells := (cells h1)(d := (cells h1 d)
        \<lparr>found := found (cells h1 d) ++ (found (passing test (entries h1 src)) |` {k. Under k \<in> set ks}),
         lost := lost (cells h1 d) @ filter (test NaN) (map (nth (lost (entries h1 src))) (nan_slots ks))\<rparr>)\<rparr>
        = h\<lparr>cells := (cells h)(d := (cells h d)
        \<lparr>found := found (cells h d) ++ (found (passing test ?c) |` {k'. Under k' \<in> set (sl # ks)}),
         lost := lost (cells h d) @ filter (test NaN) (map (nth (lost ?c)) (nan_slots (sl # ks)))\<rparr>)\<rparr>"
        unfolding nth_same pf same_found js using True by (simp add: h1_def)
      show ?thesis unfolding step ih same ..
    qed
  qed
qed

lemma set_nan_slots: "set (nan_slots ks) = {i. NthNaN i \<in> set ks}"
  by (induction ks rule: nan_slots.induct) auto

lemma distinct_nan_slots: "distinct ks \<Longrightarrow> distinct (nan_slots ks)"
  by (induction ks rule: nan_slots.induct) (auto simp: set_nan_slots)

lemma enumerates_nan_slots:
  assumes "enumerates ks c"
  shows "set (nan_slots ks) = {..<length (lost c)}" and "distinct (nan_slots ks)"
  using assms by (auto simp: enumerates_def slots_def set_nan_slots distinct_nan_slots)

lemma enumerates_bound: "enumerates ks c \<Longrightarrow> \<forall>i \<in> set (nan_slots ks). i < length (lost c)"
  by (simp add: enumerates_nan_slots(1))

lemma enumerates_under: "enumerates ks c \<Longrightarrow> {k. Under k \<in> set ks} = dom (found c)"
  by (auto simp: enumerates_def slots_def)

lemma enumerates_lost:
  assumes "enumerates ks c"
  shows "mset (map (nth (lost c)) (nan_slots ks)) = mset (lost c)"
proof -
  have "mset (nan_slots ks) = mset [0..<length (lost c)]"
    using enumerates_nan_slots [OF assms]
    by (metis atLeast_upt distinct_upt set_eq_iff_mset_eq_distinct)
  then have "mset (map (nth (lost c)) (nan_slots ks)) = mset (map (nth (lost c)) [0..<length (lost c)])"
    by (metis mset_map)
  then show ?thesis by (simp add: map_nth)
qed

lemma enumerates_len:
  assumes "enumerates ks c"
  shows "len c = length ks"
proof -
  have fin: "finite (dom (found c))"
    using enumerates_under [OF assms] by (metis finite_set finite_imageI finite_vimageI inj_on_def slot.inject(1) vimage_def)
  have "length ks = card (slots c)"
    using assms by (metis enumerates_def distinct_card)
  also have "\<dots> = card (Under ` dom (found c)) + card (NthNaN ` {..<length (lost c)} :: 'a slot set)"
    unfolding slots_def using fin by (intro card_Un_disjoint) auto
  also have "\<dots> = card (dom (found c)) + length (lost c)"
    by (simp add: card_image inj_on_def)
  finally show ?thesis by (simp add: len_def)
qed

lemma restrict_to_dom: "m |` dom m = m"
  by (rule ext) (auto simp: restrict_map_def domIff)

lemma passing_restrict_dom: "found (passing test c) |` dom (found c) = found (passing test c)"
  by (auto simp: passing_def fun_eq_iff restrict_map_def split: option.splits)

lemma passing_True: "passing (\<lambda>k v. True) c = c"
  by (cases c) (auto simp: passing_def fun_eq_iff split: option.splits)

lemma for_range_store:
  assumes "\<forall>i \<in> set (nan_slots ks). i < length (lost (entries h src))"
  shows "for_range (\<lambda>h'. entries h' src) (\<lambda>k v h'. store h' (MapAt d) k v) ks h
   = Inr (h\<lparr>cells := (cells h)(d := (cells h d)
        \<lparr>found := found (cells h d) ++ (found (entries h src) |` {k. Under k \<in> set ks}),
         lost := lost (cells h d) @ map (nth (lost (entries h src))) (nan_slots ks)\<rparr>)\<rparr>)"
  using for_range_select_store [OF assms, of "\<lambda>k v. True" d] by (simp add: passing_True)

lemma Filter_eq:
  assumes "a < next_addr h" "enumerates ks (cells h a)"
  shows "Filter h (MapAt a) test ks =
    Inr (h\<lparr>cells := (cells h)(next_addr h :=
            \<lparr>found = found (passing test (cells h a)),
             lost = filter (test NaN) (map (nth (lost (cells h a))) (nan_slots ks))\<rparr>),
          next_addr := Suc (next_addr h)\<rparr>, MapAt (next_addr h))"
proof -
  define h1 where "h1 = h\<lparr>cells := (cells h)(next_addr h := no_entries), next_addr := Suc (next_addr h)\<rparr>"
  have e: "entries h1 (MapAt a) = cells h a"
    using assms(1) by (simp add: h1_def entries_def)
  have b: "\<forall>i \<in> set (nan_slots ks). i < length (lost (entries h1 (MapAt a)))"
    unfolding e by (rule enumerates_bound [OF assms(2)])
  have "Filter h (MapAt a) test ks = Inr (h1\<lparr>cells := (cells h1)(next_addr h := (cells h1 (next_addr h))
        \<lparr>found := found (cells h1 (next_addr h)) ++ (found (passing test (entries h1 (MapAt a))) |` {k. Under k \<in> set ks}),
         lost := lost (cells h1 (next_addr h)) @ filter (test NaN) (map (nth (lost (entries h1 (MapAt a)))) (nan_slots ks))\<rparr>)\<rparr>,
      MapAt (next_addr h))"
    unfolding Filter_def make_map_def
    by (simp add: for_range_select_store [OF b [unfolded h1_def]] and_then_def h1_def)
  then show ?thesis
    unfolding e enumerates_under [OF assms(2)] passing_restrict_dom
    by (simp add: h1_def no_entries_def)
qed

lemma Clone_eq:
  assumes "a < next_addr h" "enumerates ks (cells h a)"
  shows "Clone h (MapAt a) ks =
    Inr (h\<lparr>cells := (cells h)(next_addr h :=
            \<lparr>found = found (cells h a), lost = map (nth (lost (cells h a))) (nan_slots ks)\<rparr>),
          next_addr := Suc (next_addr h)\<rparr>, MapAt (next_addr h))"
proof -
  define h1 where "h1 = h\<lparr>cells := (cells h)(next_addr h := no_entries), next_addr := Suc (next_addr h)\<rparr>"
  have e: "entries h1 (MapAt a) = cells h a"
    using assms(1) by (simp add: h1_def entries_def)
  have b: "\<forall>i \<in> set (nan_slots ks). i < length (lost (entries h1 (MapAt a)))"
    unfolding e by (rule enumerates_bound [OF assms(2)])
  have "Clone h (MapAt a) ks = Inr (h1\<lparr>cells := (cells h1)(next_addr h := (cells h1 (next_addr h))
        \<lparr>found := found (cells h1 (next_addr h)) ++ (found (entries h1 (MapAt a)) |` {k. Under k \<in> set ks}),
         lost := lost (cells h1 (next_addr h)) @ map (nth (lost (entries h1 (MapAt a)))) (nan_slots ks)\<rparr>)\<rparr>,
      MapAt (next_addr h))"
    unfolding Clone_def make_map_def
    by (simp add: for_range_store [OF b [unfolded h1_def]] and_then_def h1_def)
  then show ?thesis
    unfolding e enumerates_under [OF assms(2)] restrict_to_dom
    by (simp add: h1_def no_entries_def)
qed

lemma slot_entry_present: "sl \<in> slots c \<Longrightarrow> \<exists>v. slot_entry c sl = Some v"
  by (auto simp: slots_def slot_entry_def)

lemma enumerates_present: "enumerates ks c \<Longrightarrow> \<forall>sl \<in> set ks. slot_entry c sl \<noteq> None"
  using slot_entry_present by (fastforce simp: enumerates_def)




lemma foldl_invoke:
  "foldl (\<lambda>ob' f. invoke ob' f key new old) ob fs
   = ob\<lparr>calls := calls ob @ map (\<lambda>f. Observe f key new old (held (sync ob))) fs\<rparr>"
  by (induction fs arbitrary: ob) (simp_all add: invoke_def)

lemma callback_eq:
  "callback ob key new old
   = ob\<lparr>calls := calls ob @ map (\<lambda>f. Observe f key new old (held (sync ob))) (obs ob)\<rparr>"
  by (simp add: callback_def foldl_invoke)

lemma held_Some: "data s = Some c \<Longrightarrow> held s = c"
  by (simp add: held_def)

lemma Observable_set_eq:
  assumes "data (sync ob) = Some c"
  shows "Observable_set ob key val
   = Inr (ob\<lparr>sync := (sync ob)\<lparr>data := Some (assign c key val)\<rparr>,
        calls := calls ob @ map (\<lambda>f. Observe f key val (index c key) c) (obs ob)\<rparr>)"
  using assms
  by (simp add: Observable_set_def callback_eq put_entry_def and_then_def held_def)


lemma Observable_Set_eq:
  assumes "rw (sync ob) = Unlocked" and "data (sync ob) = Some c"
  shows "Observable_Set ob key val
   = Inr (ob\<lparr>sync := (sync ob)\<lparr>data := Some (assign c key val)\<rparr>,
        calls := calls ob @ map (\<lambda>f. Observe f key val (index c key) c) (obs ob)\<rparr>)"
proof -
  have "Observable_set (ob\<lparr>sync := (sync ob)\<lparr>rw := WriteLocked\<rparr>\<rparr>) key val
    = Inr (ob\<lparr>sync := (sync ob)\<lparr>rw := WriteLocked, data := Some (assign c key val)\<rparr>,
        calls := calls ob @ map (\<lambda>f. Observe f key val (index c key) c) (obs ob)\<rparr>)"
    using assms(2) by (simp add: Observable_set_eq [where c = c])
  then show ?thesis
    using assms(1) by (simp add: Observable_Set_def rw_Lock_def rw_Unlock_def and_then_def)
qed




lemma without_no_entries: "without no_entries keys = no_entries"
  by (simp add: without_def no_entries_def)




lemma held_without: "held (s\<lparr>data := map_option (\<lambda>c. without c keys) (data s)\<rparr>) = without (held s) keys"
  by (cases "data s") (simp_all add: held_def without_no_entries)


lemma lookup_no_entries: "lookup no_entries key = None"
  by (cases key) (simp_all add: lookup_def no_entries_def)


lemma DeleteFunc_loop:
  assumes "distinct ks" and "set ks \<subseteq> slots c" and "data (sync ob) = Some c"
  shows "\<exists>cs. for_range (\<lambda>ob'. held (sync ob'))
                 (\<lambda>k v ob'. Inr (if del k v
                    then (let ob2 = callback ob' k 0 v in
                          ob2\<lparr>sync := drop_entry (sync ob2) k\<rparr>)
                    else ob'))
                 ks ob
      = Inr (ob\<lparr>sync := (sync ob)\<lparr>data := Some (c\<lparr>found :=
                  (\<lambda>k. if Under k \<in> set ks then found (passing (\<lambda>k v. \<not> del k v) c) k else found c k)\<rparr>)\<rparr>,
                calls := calls ob @ cs\<rparr>)
    \<and> map (\<lambda>x. (call_observer x, call_id x, call_new x, call_old x)) cs
        = concat (map (\<lambda>sl. map (\<lambda>f. (f, slot_key sl, 0, the (slot_entry c sl))) (obs ob))
                    (filter (\<lambda>sl. del (slot_key sl) (the (slot_entry c sl))) ks))
    \<and> (\<forall>x \<in> set cs. case call_id x of
                         Key k \<Rightarrow> found (call_data x) k = Some (call_old x)
                       | NaN \<Rightarrow> call_old x \<in> set (lost (call_data x)))"
  using assms
proof (induction ks arbitrary: ob c)
  case Nil
  have "c\<lparr>found := found c\<rparr> = c" by simp
  then show ?case using Nil by simp
next
  case (Cons sl ks)
  let ?body = "\<lambda>k v ob'. Inr (if del k v
                    then (let ob2 = callback ob' k 0 v in
                          ob2\<lparr>sync := drop_entry (sync ob2) k\<rparr>)
                    else ob')"
  let ?nd = "\<lambda>k v. \<not> del k v"
  from Cons.prems have sl: "sl \<in> slots c" and dist: "distinct ks" and notin: "sl \<notin> set ks"
    and sub: "set ks \<subseteq> slots c" and d: "data (sync ob) = Some c"
    by simp_all
  from slot_entry_present [OF sl] obtain v where v: "slot_entry c sl = Some v" ..
  have hv: "slot_entry (held (sync ob)) sl = Some v" using v d by (simp add: held_def)
  show ?case
  proof (cases "del (slot_key sl) v")
    case False
    have step: "for_range (\<lambda>ob'. held (sync ob')) ?body (sl # ks) ob
              = for_range (\<lambda>ob'. held (sync ob')) ?body ks ob"
      using hv False by simp
    from Cons.IH [OF dist sub d] obtain cs where
      run: "for_range (\<lambda>ob'. held (sync ob')) ?body ks ob
        = Inr (ob\<lparr>sync := (sync ob)\<lparr>data := Some (c\<lparr>found :=
                  (\<lambda>k. if Under k \<in> set ks then found (passing ?nd c) k else found c k)\<rparr>)\<rparr>,
                calls := calls ob @ cs\<rparr>)"
      and args: "map (\<lambda>x. (call_observer x, call_id x, call_new x, call_old x)) cs
        = concat (map (\<lambda>sl. map (\<lambda>f. (f, slot_key sl, 0, the (slot_entry c sl))) (obs ob))
                    (filter (\<lambda>sl. del (slot_key sl) (the (slot_entry c sl))) ks))"
      and seen: "\<forall>x \<in> set cs. case call_id x of
                         Key k \<Rightarrow> found (call_data x) k = Some (call_old x)
                       | NaN \<Rightarrow> call_old x \<in> set (lost (call_data x))"
      by (elim exE conjE)
    have same: "(\<lambda>k. if Under k \<in> set (sl # ks) then found (passing ?nd c) k else found c k)
              = (\<lambda>k. if Under k \<in> set ks then found (passing ?nd c) k else found c k)"
      using v False by (cases sl) (auto simp: fun_eq_iff passing_def slot_entry_def slot_key_def)
    have args': "map (\<lambda>x. (call_observer x, call_id x, call_new x, call_old x)) cs
        = concat (map (\<lambda>sl. map (\<lambda>f. (f, slot_key sl, 0, the (slot_entry c sl))) (obs ob))
                    (filter (\<lambda>sl. del (slot_key sl) (the (slot_entry c sl))) (sl # ks)))"
      using args v False by simp
    show ?thesis
      unfolding step same using run args' seen by (intro exI [where x = cs]) simp
  next
    case True
    let ?key = "slot_key sl"
    let ?c1 = "remove c ?key"
    define ob1 where "ob1 = ob\<lparr>sync := (sync ob)\<lparr>data := Some ?c1\<rparr>,
      calls := calls ob @ map (\<lambda>f. Observe f ?key 0 v c) (obs ob)\<rparr>"
    have d1: "data (sync ob1) = Some ?c1" and o1: "obs ob1 = obs ob"
      and c1: "calls ob1 = calls ob @ map (\<lambda>f. Observe f ?key 0 v c) (obs ob)"
      by (simp_all add: ob1_def)
    have s1: "\<And>X Y. ob1\<lparr>sync := (sync ob1)\<lparr>data := X\<rparr>, calls := Y\<rparr> = ob\<lparr>sync := (sync ob)\<lparr>data := X\<rparr>, calls := Y\<rparr>"
      by (simp add: ob1_def)
    have b: "(if del ?key v
                    then (let ob2 = callback ob ?key 0 v in
                          ob2\<lparr>sync := drop_entry (sync ob2) ?key\<rparr>)
                    else ob) = ob1"
      using True d by (simp add: callback_eq ob1_def drop_entry_def held_def)
    have step: "for_range (\<lambda>ob'. held (sync ob')) ?body (sl # ks) ob
              = for_range (\<lambda>ob'. held (sync ob')) ?body ks ob1"
      by (simp only: for_range.simps hv option.case b sum.case)
    have eqs: "\<And>sl'. sl' \<in> set ks \<Longrightarrow> slot_entry ?c1 sl' = slot_entry c sl'"
      using notin by (cases sl) (auto simp: slot_entry_def slot_key_def remove_def split: slot.splits)
    have sub1: "set ks \<subseteq> slots ?c1"
    proof
      fix x assume x: "x \<in> set ks"
      then have "x \<in> slots c" and "x \<noteq> sl" using sub notin by auto
      then show "x \<in> slots ?c1"
        by (cases sl; cases x) (auto simp: slots_def slot_key_def remove_def)
    qed
    from Cons.IH [OF dist sub1 d1] obtain cs where
      run: "for_range (\<lambda>ob'. held (sync ob')) ?body ks ob1
        = Inr (ob1\<lparr>sync := (sync ob1)\<lparr>data := Some (?c1\<lparr>found :=
                  (\<lambda>k. if Under k \<in> set ks then found (passing ?nd ?c1) k else found ?c1 k)\<rparr>)\<rparr>,
                calls := calls ob1 @ cs\<rparr>)"
      and args: "map (\<lambda>x. (call_observer x, call_id x, call_new x, call_old x)) cs
        = concat (map (\<lambda>sl. map (\<lambda>f. (f, slot_key sl, 0, the (slot_entry ?c1 sl))) (obs ob1))
                    (filter (\<lambda>sl. del (slot_key sl) (the (slot_entry ?c1 sl))) ks))"
      and seen: "\<forall>x \<in> set cs. case call_id x of
                         Key k \<Rightarrow> found (call_data x) k = Some (call_old x)
                       | NaN \<Rightarrow> call_old x \<in> set (lost (call_data x))"
      by (elim exE conjE)
    have f: "filter (\<lambda>sl. del (slot_key sl) (the (slot_entry ?c1 sl))) ks
           = filter (\<lambda>sl. del (slot_key sl) (the (slot_entry c sl))) ks"
      by (rule filter_cong) (simp_all add: eqs)
    have args': "map (\<lambda>x. (call_observer x, call_id x, call_new x, call_old x)) cs
        = concat (map (\<lambda>sl. map (\<lambda>f. (f, slot_key sl, 0, the (slot_entry c sl))) (obs ob))
                    (filter (\<lambda>sl. del (slot_key sl) (the (slot_entry c sl))) ks))"
      unfolding args f o1
      by (rule arg_cong [where f = concat], rule map_cong) (simp_all add: eqs)
    have same: "?c1\<lparr>found := (\<lambda>k. if Under k \<in> set ks then found (passing ?nd ?c1) k else found ?c1 k)\<rparr>
              = c\<lparr>found := (\<lambda>k. if Under k \<in> set (sl # ks) then found (passing ?nd c) k else found c k)\<rparr>"
      using v True notin
      by (cases sl) (auto simp: fun_eq_iff passing_def slot_entry_def slot_key_def remove_def)
    have run': "for_range (\<lambda>ob'. held (sync ob')) ?body (sl # ks) ob
        = Inr (ob\<lparr>sync := (sync ob)\<lparr>data := Some (c\<lparr>found :=
                  (\<lambda>k. if Under k \<in> set (sl # ks) then found (passing ?nd c) k else found c k)\<rparr>)\<rparr>,
                calls := calls ob @ (map (\<lambda>f. Observe f ?key 0 v c) (obs ob) @ cs)\<rparr>)"
      unfolding step run s1 same c1 by simp
    have seen1: "\<forall>x \<in> set (map (\<lambda>f. Observe f ?key 0 v c) (obs ob)). case call_id x of
                         Key k \<Rightarrow> found (call_data x) k = Some (call_old x)
                       | NaN \<Rightarrow> call_old x \<in> set (lost (call_data x))"
      using v by (cases sl) (auto simp: slot_entry_def slot_key_def split: if_splits)
    show ?thesis
      apply (rule exI [where x = "map (\<lambda>f. Observe f ?key 0 v c) (obs ob) @ cs"])
      using run' args' seen seen1 v True by (auto simp: o_def)
  qed
qed

lemma for_range_fill:
  assumes "\<forall>sl \<in> set ks. slot_entry c sl \<noteq> None" and "i + length ks \<le> length xs"
  shows "for_range (\<lambda>_. c)
           (\<lambda>k v (i, keys). if i < length keys then Inr (Suc i, keys[i := g k v]) else Inl IndexOutOfRange)
           ks (i, xs)
         = Inr (i + length ks,
                take i xs @ map (\<lambda>sl. g (slot_key sl) (the (slot_entry c sl))) ks @ drop (i + length ks) xs)"
  using assms
proof (induction ks arbitrary: i xs)
  case Nil
  then show ?case by simp
next
  case (Cons sl ks)
  from Cons.prems obtain v where v: "slot_entry c sl = Some v" by auto
  let ?k = "slot_key sl"
  have i: "i < length xs" using Cons.prems by simp
  have ih: "for_range (\<lambda>_. c)
           (\<lambda>k v (i, keys). if i < length keys then Inr (Suc i, keys[i := g k v]) else Inl IndexOutOfRange)
           ks (Suc i, xs[i := g ?k v])
         = Inr (Suc i + length ks, take (Suc i) (xs[i := g ?k v])
               @ map (\<lambda>sl. g (slot_key sl) (the (slot_entry c sl))) ks
               @ drop (Suc i + length ks) (xs[i := g ?k v]))"
    using Cons.prems by (intro Cons.IH) simp_all
  have t: "take (Suc i) (xs[i := g ?k v]) = take i xs @ [g ?k v]"
    using i by (simp add: take_Suc_conv_app_nth)
  have d: "drop (Suc i + length ks) (xs[i := g ?k v]) = drop (Suc i + length ks) xs"
    by simp
  show ?case
    using v i by (simp add: ih t d)
qed

lemma for_range_total:
  assumes "\<forall>sl \<in> set ks. slot_entry c sl \<noteq> None"
  shows "for_range (\<lambda>_. c) (\<lambda>k v s. Inr (g k v s)) ks s
       = Inr (fold (\<lambda>sl. g (slot_key sl) (the (slot_entry c sl))) ks s)"
  using assms by (induction ks arbitrary: s) auto

lemma fold_select:
  assumes "\<forall>sl \<in> set ks. slot_entry c sl \<noteq> None"
  shows "fold (\<lambda>sl acc. if f (slot_key sl) (the (slot_entry c sl))
                         then assign acc (slot_key sl) (the (slot_entry c sl)) else acc) ks acc
   = acc\<lparr>found := found acc ++ (found (passing f c) |` {k. Under k \<in> set ks}),
         lost := lost acc @ filter (f NaN) (map (nth (lost c)) (nan_slots ks))\<rparr>"
  using assms
proof (induction ks arbitrary: acc)
  case Nil
  show ?case by simp
next
  case (Cons sl ks)
  let ?step = "\<lambda>sl acc. if f (slot_key sl) (the (slot_entry c sl))
                         then assign acc (slot_key sl) (the (slot_entry c sl)) else acc"
  from Cons.prems have rest: "\<forall>sl \<in> set ks. slot_entry c sl \<noteq> None" by simp
  from Cons.prems obtain v where v: "slot_entry c sl = Some v" by auto
  have ih: "fold ?step ks (?step sl acc)
    = (?step sl acc)\<lparr>found := found (?step sl acc) ++ (found (passing f c) |` {k. Under k \<in> set ks}),
         lost := lost (?step sl acc) @ filter (f NaN) (map (nth (lost c)) (nan_slots ks))\<rparr>"
    by (rule Cons.IH [OF rest])
  have same: "(?step sl acc)\<lparr>found := found (?step sl acc) ++ (found (passing f c) |` {k. Under k \<in> set ks}),
         lost := lost (?step sl acc) @ filter (f NaN) (map (nth (lost c)) (nan_slots ks))\<rparr>
     = acc\<lparr>found := found acc ++ (found (passing f c) |` {k. Under k \<in> set (sl # ks)}),
         lost := lost acc @ filter (f NaN) (map (nth (lost c)) (nan_slots (sl # ks)))\<rparr>"
  proof (cases sl)
    case (Under k)
    have fk: "found c k = Some v" using v Under by (simp add: slot_entry_def)
    have "found (?step sl acc) ++ (found (passing f c) |` {k. Under k \<in> set ks})
        = found acc ++ (found (passing f c) |` {k. Under k \<in> set (sl # ks)})"
      using fk Under
      by (auto simp: fun_eq_iff map_add_def restrict_map_def passing_def assign_def slot_entry_def slot_key_def
          split: option.splits)
    moreover have "lost (?step sl acc) = lost acc"
      using Under by (simp add: assign_def slot_key_def)
    moreover have "nan_slots (sl # ks) = nan_slots ks" using Under by simp
    moreover have "(?step sl acc)\<lparr>found := X, lost := Y\<rparr> = acc\<lparr>found := X, lost := Y\<rparr>" for X Y
      using Under by (simp add: assign_def slot_key_def)
    ultimately show ?thesis by simp
  next
    case (NthNaN i)
    have i: "i < length (lost c)" and vi: "v = lost c ! i"
      using v NthNaN by (auto simp: slot_entry_def split: if_splits)
    have "found (?step sl acc) = found acc"
      using NthNaN by (simp add: assign_def slot_key_def)
    moreover have "{k. Under k \<in> set (sl # ks)} = {k. Under k \<in> set ks}"
      using NthNaN by auto
    moreover have "lost (?step sl acc) @ filter (f NaN) (map (nth (lost c)) (nan_slots ks))
       = lost acc @ filter (f NaN) (map (nth (lost c)) (nan_slots (sl # ks)))"
      using NthNaN v vi by (simp add: assign_def slot_key_def)
    moreover have "(?step sl acc)\<lparr>found := X, lost := Y\<rparr> = acc\<lparr>found := X, lost := Y\<rparr>" for X Y
      using NthNaN by (simp add: assign_def slot_key_def)
    ultimately show ?thesis by simp
  qed
  show ?case
    unfolding fold_simps ih same ..
qed

lemma Sync_Keys_eq:
  assumes "rw s = Unlocked" and "enumerates ks (held s)"
  shows "Sync_Keys s ks = Inr (map slot_key ks, s)"
proof -
  have "for_range (\<lambda>_. held s)
           (\<lambda>k v (i, keys). if i < length keys then Inr (Suc i, keys[i := k]) else Inl IndexOutOfRange)
           ks (0, replicate (len (held s)) 0)
         = Inr (0 + length ks, take 0 (replicate (len (held s)) 0) @ map (\<lambda>sl. slot_key sl) ks
                @ drop (0 + length ks) (replicate (len (held s)) 0))"
    using assms(2) enumerates_len [OF assms(2)] by (intro for_range_fill enumerates_present) simp_all
  then show ?thesis
    using assms(1) enumerates_len [OF assms(2)]
    by (simp add: Sync_Keys_def and_then_def rw_RLock_def rw_RUnlock_def)
qed

lemma Sync_Values_eq:
  assumes "rw s = Unlocked" and "enumerates ks (held s)"
  shows "Sync_Values s ks = Inr (map (\<lambda>sl. the (slot_entry (held s) sl)) ks, s)"
proof -
  have "for_range (\<lambda>_. held s)
           (\<lambda>k v (i, values). if i < length values then Inr (Suc i, values[i := v]) else Inl IndexOutOfRange)
           ks (0, replicate (len (held s)) 0)
         = Inr (0 + length ks, take 0 (replicate (len (held s)) 0) @ map (\<lambda>sl. the (slot_entry (held s) sl)) ks
                @ drop (0 + length ks) (replicate (len (held s)) 0))"
    using assms(2) enumerates_len [OF assms(2)] by (intro for_range_fill enumerates_present) simp_all
  then show ?thesis
    using assms(1) enumerates_len [OF assms(2)]
    by (simp add: Sync_Values_def and_then_def rw_RLock_def rw_RUnlock_def)
qed

lemma Sync_Each_eq:
  assumes "rw s = Unlocked" and "enumerates ks (held s)"
  shows "Sync_Each s f ks w = Inr (fold (\<lambda>sl. f (slot_key sl) (the (slot_entry (held s) sl))) ks w, s)"
  using assms
  by (simp add: Sync_Each_def for_range_total enumerates_present and_then_def rw_RLock_def rw_RUnlock_def)

lemma Sync_Filter_eq:
  assumes "rw s = Unlocked" and "enumerates ks (held s)"
  shows "Sync_Filter s f ks
       = Inr (\<lparr>found = found (passing f (held s)),
               lost = filter (f NaN) (map (nth (lost (held s))) (nan_slots ks))\<rparr>, s)"
proof -
  have p: "\<forall>sl \<in> set ks. slot_entry (held s) sl \<noteq> None"
    using assms(2) by (rule enumerates_present)
  have "for_range (\<lambda>_. held s) (\<lambda>k v filtered'. Inr (if f k v then assign filtered' k v else filtered')) ks no_entries
      = Inr (fold (\<lambda>sl acc. if f (slot_key sl) (the (slot_entry (held s) sl))
                         then assign acc (slot_key sl) (the (slot_entry (held s) sl)) else acc) ks no_entries)"
    by (rule for_range_total [OF p])
  also have "\<dots> = Inr (\<lparr>found = found (passing f (held s)),
               lost = filter (f NaN) (map (nth (lost (held s))) (nan_slots ks))\<rparr>)"
    unfolding fold_select [OF p] enumerates_under [OF assms(2)] passing_restrict_dom
    by (simp add: no_entries_def)
  finally show ?thesis
    using assms(1) by (simp add: Sync_Filter_def and_then_def rw_RLock_def rw_RUnlock_def)
qed

lemma Sync_Find_eq:
  assumes "rw s = Unlocked"
  shows "Sync_Find s f ks = Inr (Find_loop f (held s) ks, s)"
  using assms by (simp add: Sync_Find_def and_then_def rw_RLock_def rw_RUnlock_def)

lemma ReduceSync_eq:
  assumes "rw s = Unlocked" and "enumerates ks (held s)"
  shows "ReduceSync (Some s) a g ks
       = Inr (fold (\<lambda>sl a'. g a' (slot_key sl) (the (slot_entry (held s) sl))) ks a, Some s)"
  using assms
  by (simp add: ReduceSync_def for_range_total enumerates_present and_then_def rw_RLock_def rw_RUnlock_def)

lemma assign_same: "lookup c key = Some val \<Longrightarrow> assign c key val = c"
  by (cases key) (auto simp: lookup_def assign_def fun_upd_idem)

section \<open>The observable map\<close>






text \<open>
  Claim C3, amended. \<^verbatim>\<open>Observable.DeleteFunc(del)\<close>, called with the lock free, returns,
  whatever order \<open>ks\<close> the runtime visits the entries in. The calls it adds are, for the
  entries that satisfy \<open>del\<close> in the order of the visit, one call per observer in
  registration order with \<open>(k, 0, v)\<close>; every such call ran while the entry was still
  present. Afterwards the entries found under keys that equal themselves are exactly the
  original ones that do not satisfy \<open>del\<close>. The entries under \<open>NaN\<close> all stay, those that
  satisfy \<open>del\<close> too: they are announced, and \<^verbatim>\<open>delete\<close> does not remove them. The claim
  as first stated, that afterwards the mapping holds exactly the entries for which the test
  is false, does not hold for them.
\<close>

theorem Observable_DeleteFunc_notifies_then_removes:
  assumes "rw (sync ob) = Unlocked" and "enumerates ks (held (sync ob))"
  shows "\<exists>ob' cs. Observable_DeleteFunc ob del ks = Inr ob'
      \<and> calls ob' = calls ob @ cs
      \<and> map (\<lambda>x. (call_observer x, call_id x, call_new x, call_old x)) cs
          = concat (map (\<lambda>sl. map (\<lambda>f. (f, slot_key sl, 0, the (slot_entry (held (sync ob)) sl))) (obs ob))
                      (filter (\<lambda>sl. del (slot_key sl) (the (slot_entry (held (sync ob)) sl))) ks))
      \<and> (\<forall>x \<in> set cs. case call_id x of
                           Key k \<Rightarrow> found (call_data x) k = Some (call_old x)
                         | NaN \<Rightarrow> call_old x \<in> set (lost (call_data x)))
      \<and> (\<forall>k v. lookup (held (sync ob')) (Key k) = Some v
            \<longleftrightarrow> (lookup (held (sync ob)) (Key k) = Some v \<and> \<not> del (Key k) v))
      \<and> lost (held (sync ob')) = lost (held (sync ob))
      \<and> (data (sync ob') = None \<longleftrightarrow> data (sync ob) = None)
      \<and> obs ob' = obs ob
      \<and> rw (sync ob') = Unlocked"
proof (cases "data (sync ob)")
  case None
  then have h: "held (sync ob) = no_entries" by (simp add: held_def)
  then have "ks = []" using assms(2) by (auto simp: enumerates_def slots_def no_entries_def)
  then have "Observable_DeleteFunc ob del ks = Inr ob"
    using assms(1) by (simp add: Observable_DeleteFunc_def rw_Lock_def rw_Unlock_def and_then_def)
  then show ?thesis
    using assms(1) \<open>ks = []\<close> None
    by (intro exI [where x = ob] exI [where x = "[]"]) (simp add: h lookup_no_entries)
next
  case (Some c)
  define ob0 where "ob0 = ob\<lparr>sync := (sync ob)\<lparr>rw := WriteLocked\<rparr>\<rparr>"
  have d0: "data (sync ob0) = Some c" and o0: "obs ob0 = obs ob" and c0: "calls ob0 = calls ob"
    using Some by (simp_all add: ob0_def)
  have hc: "held (sync ob) = c" using Some by (simp add: held_def)
  have s0: "\<And>X Y. ob0\<lparr>sync := (sync ob0)\<lparr>data := X\<rparr>, calls := Y\<rparr>
      = ob\<lparr>sync := (sync ob)\<lparr>rw := WriteLocked, data := X\<rparr>, calls := Y\<rparr>"
    by (simp add: ob0_def)
  have dist: "distinct ks" and ks: "set ks = slots c"
    using assms(2) by (simp_all add: enumerates_def hc)
  have sub: "set ks \<subseteq> slots c" using ks by simp
  let ?c' = "c\<lparr>found := (\<lambda>k. if Under k \<in> set ks then found (passing (\<lambda>k v. \<not> del k v) c) k else found c k)\<rparr>"
  from DeleteFunc_loop [OF dist sub d0, of del] obtain cs where
    run: "for_range (\<lambda>ob'. held (sync ob'))
                 (\<lambda>k v ob'. Inr (if del k v
                    then (let ob2 = callback ob' k 0 v in
                          ob2\<lparr>sync := drop_entry (sync ob2) k\<rparr>)
                    else ob'))
                 ks ob0
      = Inr (ob0\<lparr>sync := (sync ob0)\<lparr>data := Some ?c'\<rparr>, calls := calls ob0 @ cs\<rparr>)"
    and args: "map (\<lambda>x. (call_observer x, call_id x, call_new x, call_old x)) cs
        = concat (map (\<lambda>sl. map (\<lambda>f. (f, slot_key sl, 0, the (slot_entry c sl))) (obs ob0))
                    (filter (\<lambda>sl. del (slot_key sl) (the (slot_entry c sl))) ks))"
    and seen: "\<forall>x \<in> set cs. case call_id x of
                         Key k \<Rightarrow> found (call_data x) k = Some (call_old x)
                       | NaN \<Rightarrow> call_old x \<in> set (lost (call_data x))"
    by (elim exE conjE)
  let ?ob' = "ob\<lparr>sync := (sync ob)\<lparr>data := Some ?c'\<rparr>, calls := calls ob @ cs\<rparr>"
  have res: "Observable_DeleteFunc ob del ks = Inr ?ob'"
    unfolding Observable_DeleteFunc_def
    using assms(1) run [unfolded c0 s0, unfolded ob0_def]
    by (simp add: rw_Lock_def rw_Unlock_def and_then_def)
  have h': "held (sync ?ob') = ?c'" by (simp add: held_def)
  have iff: "\<forall>k v. lookup (held (sync ?ob')) (Key k) = Some v
            \<longleftrightarrow> (lookup (held (sync ob)) (Key k) = Some v \<and> \<not> del (Key k) v)"
    unfolding h' hc using ks
    by (auto simp: lookup_def passing_def slots_def split: option.splits)
  have l: "lost (held (sync ?ob')) = lost (held (sync ob))"
    unfolding h' hc by simp
  show ?thesis
    unfolding res
    apply (intro exI [where x = ?ob'] exI [where x = cs])
    using args [unfolded o0] seen iff l assms(1) Some unfolding hc by simp
qed

text \<open>
  A mapping with the entries \<open>(1, 10)\<close> and \<open>(NaN, 20)\<close> and a test that every entry
  passes: both entries are announced, and the second is still there afterwards.
\<close>

theorem Observable_DeleteFunc_counterexample:
  "rw (sync watched_nan) = Unlocked
   \<and> enumerates [Under 1, NthNaN 0] (held (sync watched_nan))
   \<and> \<not> isl (Observable_DeleteFunc watched_nan every_entry [Under 1, NthNaN 0])
   \<and> map call_id (calls (projr (Observable_DeleteFunc watched_nan every_entry [Under 1, NthNaN 0]))) = [Key 1, NaN]
   \<and> map call_old (calls (projr (Observable_DeleteFunc watched_nan every_entry [Under 1, NthNaN 0]))) = [10, 20]
   \<and> lost (held (sync (projr (Observable_DeleteFunc watched_nan every_entry [Under 1, NthNaN 0])))) = [20]
   \<and> Sync_Size (sync (projr (Observable_DeleteFunc watched_nan every_entry [Under 1, NthNaN 0]))) = 1"
proof -
  have u: "rw (sync watched_nan) = Unlocked" by (simp add: watched_nan_def)
  have e: "enumerates [Under 1, NthNaN 0] (held (sync watched_nan))"
    by (auto simp: enumerates_def slots_def watched_nan_def held_def)
  have r: "Observable_DeleteFunc watched_nan every_entry [Under 1, NthNaN 0]
    = Inr \<lparr>sync = \<lparr>rw = Unlocked, data = Some \<lparr>found = Map.empty, lost = [20]\<rparr>\<rparr>, obs = [''f''],
           calls = [Observe ''f'' (Key 1) 0 10 \<lparr>found = [1 \<mapsto> 10], lost = [20]\<rparr>,
                    Observe ''f'' NaN 0 20 \<lparr>found = Map.empty, lost = [20]\<rparr>]\<rparr>"
    by (simp add: Observable_DeleteFunc_def watched_nan_def every_entry_def rw_Lock_def rw_Unlock_def
        and_then_def held_def slot_entry_def slot_key_def callback_eq drop_entry_def remove_def)
  show ?thesis
    unfolding r using u e by (simp add: held_def Sync_Size_def len_def)
qed

text \<open>Deleting the entries with value 1 from \<open>watched\<close>, visiting \<open>b\<close> before \<open>a\<close>.\<close>

theorem Observable_DeleteFunc_witness:
  "\<exists>ob'. Observable_DeleteFunc watched (\<lambda>k v. v = 1) [Under ''b'', Under ''a''] = Inr ob'
      \<and> map (\<lambda>x. (call_observer x, call_id x, call_new x, call_old x)) (calls ob')
          = [(''f'', Key ''a'', 0, 1), (''g'', Key ''a'', 0, 1)]
      \<and> lookup (held (sync ob')) (Key ''a'') = None
      \<and> lookup (held (sync ob')) (Key ''b'') = Some 2"
proof -
  have u: "rw (sync watched) = Unlocked" by (simp add: watched_def)
  have d: "held (sync watched) = \<lparr>found = [''a'' \<mapsto> 1, ''b'' \<mapsto> 2], lost = []\<rparr>"
    by (simp add: watched_def held_def)
  have e: "enumerates [Under ''b'', Under ''a''] (held (sync watched))"
    unfolding d by (auto simp: enumerates_def slots_def)
  from Observable_DeleteFunc_notifies_then_removes [OF u e, of "\<lambda>k v. v = 1"]
  obtain ob' cs where r: "Observable_DeleteFunc watched (\<lambda>k v. v = 1) [Under ''b'', Under ''a''] = Inr ob'"
    and c: "calls ob' = calls watched @ cs"
    and a: "map (\<lambda>x. (call_observer x, call_id x, call_new x, call_old x)) cs
          = concat (map (\<lambda>sl. map (\<lambda>f. (f, slot_key sl, 0, the (slot_entry (held (sync watched)) sl))) (obs watched))
                      (filter (\<lambda>sl. the (slot_entry (held (sync watched)) sl) = 1) [Under ''b'', Under ''a'']))"
    and i: "\<forall>k v. lookup (held (sync ob')) (Key k) = Some v
        \<longleftrightarrow> (lookup (held (sync watched)) (Key k) = Some v \<and> \<not> v = 1)"
    by (elim exE conjE)
  have b: "lookup (held (sync ob')) (Key ''b'') = Some 2"
    using i [rule_format, of "''b''" 2] by (simp add: d lookup_def)
  have "lookup (held (sync ob')) (Key ''a'') \<noteq> Some x" for x
    using i [rule_format, of "''a''" x] by (simp add: d lookup_def)
  then have n: "lookup (held (sync ob')) (Key ''a'') = None"
    by (cases "lookup (held (sync ob')) (Key ''a'')") auto
  have m: "map (\<lambda>x. (call_observer x, call_id x, call_new x, call_old x)) (calls ob')
          = [(''f'', Key ''a'', 0, 1), (''g'', Key ''a'', 0, 1)]"
  proof -
    have "map (\<lambda>x. (call_observer x, call_id x, call_new x, call_old x)) (calls ob')
        = map (\<lambda>x. (call_observer x, call_id x, call_new x, call_old x)) cs"
      unfolding c by (simp add: watched_def)
    also have "\<dots> = concat (map (\<lambda>sl. map (\<lambda>f. (f, slot_key sl, 0, the (slot_entry (held (sync watched)) sl))) (obs watched))
                      (filter (\<lambda>sl. the (slot_entry (held (sync watched)) sl) = 1) [Under ''b'', Under ''a'']))"
      by (rule a)
    also have "\<dots> = [(''f'', Key ''a'', 0, 1), (''g'', Key ''a'', 0, 1)]"
      unfolding d by (simp add: watched_def slot_entry_def slot_key_def)
    finally show ?thesis .
  qed
  show ?thesis
    using r m n b by (intro exI [where x = ob']) simp
qed

text \<open>
  Claim C9. The setter compares nothing. When \<open>val\<close> is found under \<open>key\<close>, \<^verbatim>\<open>o.set\<close>
  invokes every observer with \<open>old = val\<close> whatever the new value \<open>v\<close> is; so
  \<^verbatim>\<open>Set(key, val)\<close>, and the setter that \<^verbatim>\<open>Lock\<close> hands to its callback, invoke every
  observer with the new value equal to the old one, once for each call of the setter, and
  leave the entries as they were.
\<close>

theorem Observable_set_has_no_change_detection:
  assumes "rw (sync ob) = Unlocked" and "lookup (held (sync ob)) key = Some val"
  shows "(\<exists>ob'. Observable_set ob key v = Inr ob'
            \<and> calls ob' = calls ob @ map (\<lambda>f. Observe f key v val (held (sync ob))) (obs ob))
      \<and> (\<exists>ob'. Observable_Set ob key val = Inr ob'
            \<and> calls ob' = calls ob @ map (\<lambda>f. Observe f key val val (held (sync ob))) (obs ob)
            \<and> data (sync ob') = data (sync ob))
      \<and> (\<exists>ob'. Observable_Lock ob (\<lambda>setter. setter key val) = Inr ob'
            \<and> calls ob' = calls ob @ map (\<lambda>f. Observe f key val val (held (sync ob))) (obs ob)
            \<and> data (sync ob') = data (sync ob))
      \<and> (\<exists>ob'. Observable_Lock ob (\<lambda>setter ob1. and_then (setter key val ob1) (setter key val)) = Inr ob'
            \<and> calls ob' = calls ob @ map (\<lambda>f. Observe f key val val (held (sync ob))) (obs ob)
                                   @ map (\<lambda>f. Observe f key val val (held (sync ob))) (obs ob)
            \<and> data (sync ob') = data (sync ob))"
proof -
  from assms(2) obtain c where d: "data (sync ob) = Some c"
    by (cases "data (sync ob)") (simp_all add: held_def lookup_no_entries)
  have h: "held (sync ob) = c" using d by (simp add: held_def)
  have l: "lookup c key = Some val" using assms(2) h by simp
  have i: "index c key = val" using l by (simp add: index_def)
  have a: "assign c key val = c" using l by (rule assign_same)
  have c1: "\<exists>ob'. Observable_set ob key v = Inr ob'
            \<and> calls ob' = calls ob @ map (\<lambda>f. Observe f key v val (held (sync ob))) (obs ob)"
    using d i by (simp add: Observable_set_eq h index_def l)
  have c2: "\<exists>ob'. Observable_Set ob key val = Inr ob'
            \<and> calls ob' = calls ob @ map (\<lambda>f. Observe f key val val (held (sync ob))) (obs ob)
            \<and> data (sync ob') = data (sync ob)"
    using assms(1) d by (simp add: Observable_Set_eq h l a i)
  have c3: "\<exists>ob'. Observable_Lock ob (\<lambda>setter. setter key val) = Inr ob'
            \<and> calls ob' = calls ob @ map (\<lambda>f. Observe f key val val (held (sync ob))) (obs ob)
            \<and> data (sync ob') = data (sync ob)"
    using assms(1) d
    by (simp add: Observable_Lock_def Observable_set_eq h l a i rw_Lock_def rw_Unlock_def and_then_def)
  have c4: "\<exists>ob'. Observable_Lock ob (\<lambda>setter ob1. and_then (setter key val ob1) (setter key val)) = Inr ob'
            \<and> calls ob' = calls ob @ map (\<lambda>f. Observe f key val val (held (sync ob))) (obs ob)
                                   @ map (\<lambda>f. Observe f key val val (held (sync ob))) (obs ob)
            \<and> data (sync ob') = data (sync ob)"
    using assms(1) d
    by (simp add: Observable_Lock_def Observable_set_eq h l a i rw_Lock_def rw_Unlock_def and_then_def)
  show ?thesis using c1 c2 c3 c4 by (intro conjI)
qed

text \<open>Setting \<open>a\<close> to the value it has in \<open>watched\<close>.\<close>

theorem no_change_detection_witness:
  "\<exists>ob'. Observable_Set watched (Key ''a'') 1 = Inr ob'
      \<and> calls ob' = [Observe ''f'' (Key ''a'') 1 1 (held (sync watched)),
                     Observe ''g'' (Key ''a'') 1 1 (held (sync watched))]
      \<and> data (sync ob') = data (sync watched)"
proof -
  have u: "rw (sync watched) = Unlocked"
    and v: "lookup (held (sync watched)) (Key ''a'') = Some 1"
    by (simp_all add: watched_def held_def lookup_def)
  from Observable_set_has_no_change_detection [OF u v, THEN conjunct2, THEN conjunct1]
  obtain ob' where "Observable_Set watched (Key ''a'') 1 = Inr ob'"
    and "calls ob' = calls watched @ map (\<lambda>f. Observe f (Key ''a'') 1 1 (held (sync watched))) (obs watched)"
    and "data (sync ob') = data (sync watched)"
    by (elim exE conjE)
  then show ?thesis
    by (intro exI [where x = ob']) (simp add: watched_def)
qed

text \<open>
  Claim C10. The read-only methods of \<^verbatim>\<open>Observable\<close>, called with the lock free, return
  and hand back the mapping they were given: the same map (nil or not, with or without
  entries under \<open>NaN\<close>), the same observers, and the same history of observer calls, so no
  observer was invoked. \<^verbatim>\<open>Size\<close> and \<^verbatim>\<open>Get\<close> only compute a value. What \<^verbatim>\<open>Each\<close> does
  to the state outside the map is what the callback does on the entries, in the order of
  the visit. The map \<^verbatim>\<open>Filter\<close> returns has the entries that pass the test.
\<close>

theorem Observable_reads_notify_nobody_and_change_nothing:
  assumes "rw (sync ob) = Unlocked" and "enumerates ks (held (sync ob))"
  shows "Observable_Keys ob ks = Inr (map slot_key ks, ob)
      \<and> Observable_Values ob ks = Inr (map (\<lambda>sl. the (slot_entry (held (sync ob)) sl)) ks, ob)
      \<and> Observable_Size ob = int (length ks)
      \<and> Observable_Get ob key = (case lookup (held (sync ob)) key of None \<Rightarrow> 0 | Some v \<Rightarrow> v)
      \<and> Observable_Each ob f ks w
          = Inr (fold (\<lambda>sl. f (slot_key sl) (the (slot_entry (held (sync ob)) sl))) ks w, ob)
      \<and> Observable_Filter ob test ks
          = Inr (\<lparr>found = found (passing test (held (sync ob))),
                  lost = filter (test NaN) (map (nth (lost (held (sync ob)))) (nan_slots ks))\<rparr>, ob)
      \<and> same_entries \<lparr>found = found (passing test (held (sync ob))),
                      lost = filter (test NaN) (map (nth (lost (held (sync ob)))) (nan_slots ks))\<rparr>
                     (passing test (held (sync ob)))
      \<and> Observable_Find ob test ks = Inr (Find_loop test (held (sync ob)) ks, ob)
      \<and> ReduceObservable ob a g ks
          = Inr (fold (\<lambda>sl a'. g a' (slot_key sl) (the (slot_entry (held (sync ob)) sl))) ks a, ob)"
proof -
  have se: "same_entries \<lparr>found = found (passing test (held (sync ob))),
                      lost = filter (test NaN) (map (nth (lost (held (sync ob)))) (nan_slots ks))\<rparr>
                     (passing test (held (sync ob)))"
    using enumerates_lost [OF assms(2)]
    by (simp add: same_entries_def passing_def mset_filter)
  show ?thesis
    using assms se
    by (simp add: Observable_Keys_def Observable_Values_def Observable_Size_def Observable_Get_def
      Observable_Each_def Observable_Filter_def Observable_Find_def ReduceObservable_def
      Sync_Keys_eq Sync_Values_eq Sync_Each_eq Sync_Filter_eq Sync_Find_eq ReduceSync_eq
      Sync_Size_def Sync_Get_def index_def enumerates_len [OF assms(2)] and_then_def)
qed

text \<open>All eight reads on \<open>watched\<close>, visiting \<open>a\<close> before \<open>b\<close>.\<close>

theorem Observable_reads_witness:
  "Observable_Keys watched [Under ''a'', Under ''b''] = Inr ([Key ''a'', Key ''b''], watched)
   \<and> Observable_Values watched [Under ''a'', Under ''b''] = Inr ([1, 2], watched)
   \<and> Observable_Size watched = 2
   \<and> Observable_Get watched (Key ''b'') = 2
   \<and> Observable_Each watched (\<lambda>k v w. w @ [(k, v)]) [Under ''a'', Under ''b''] []
       = Inr ([(Key ''a'', 1), (Key ''b'', 2)], watched)
   \<and> (\<exists>m. Observable_Filter watched (\<lambda>k v. v = 2) [Under ''a'', Under ''b''] = Inr (m, watched)
          \<and> lookup m (Key ''a'') = None \<and> lookup m (Key ''b'') = Some 2)
   \<and> Observable_Find watched (\<lambda>k v. v = 2) [Under ''a'', Under ''b''] = Inr ((Key ''b'', 2), watched)
   \<and> ReduceObservable watched 0 (\<lambda>a k v. a + v) [Under ''a'', Under ''b''] = Inr (3, watched)"
proof -
  have u: "rw (sync watched) = Unlocked" by (simp add: watched_def)
  have d: "held (sync watched) = \<lparr>found = [''a'' \<mapsto> 1, ''b'' \<mapsto> 2], lost = []\<rparr>"
    by (simp add: watched_def held_def)
  have e: "enumerates [Under ''a'', Under ''b''] (held (sync watched))"
    unfolding d by (auto simp: enumerates_def slots_def)
  show ?thesis
    using Observable_reads_notify_nobody_and_change_nothing [OF u e,
      where key = "Key ''b''" and f = "\<lambda>k v w. w @ [(k, v)]" and w = "[]"
        and test = "\<lambda>k v. v = 2" and a = 0 and g = "\<lambda>a k v. a + v"]
    unfolding d by (simp add: passing_def lookup_def slot_entry_def slot_key_def)
qed

section \<open>The concurrent map\<close>

text \<open>
  Claim C4. From \<^verbatim>\<open>NewSync()\<close>: \<^verbatim>\<open>Set("a", 1)\<close> and \<^verbatim>\<open>Set("b", 2)\<close> return; in the state
  reached, \<^verbatim>\<open>Keys()\<close> returns, for every order of the visit, a slice of length 2 whose
  elements are exactly \<open>a\<close> and \<open>b\<close>, and \<^verbatim>\<open>Get("a")\<close> is 1; \<^verbatim>\<open>Delete("a")\<close> returns, and
  then \<^verbatim>\<open>Size()\<close> is 1 and \<^verbatim>\<open>Get("a")\<close> is 0.
\<close>

theorem Sync_scenario:
  "\<exists>s1 s2 s3. Sync_Set NewSync (Key ''a'') (1::int) = Inr s1
      \<and> Sync_Set s1 (Key ''b'') 2 = Inr s2
      \<and> (\<forall>ks. enumerates ks (held s2) \<longrightarrow>
            (\<exists>keys. Sync_Keys s2 ks = Inr (keys, s2) \<and> length keys = 2
                  \<and> set keys = {Key ''a'', Key ''b''}))
      \<and> enumerates [Under ''a'', Under ''b''] (held s2)
      \<and> Sync_Get s2 (Key ''a'') = 1
      \<and> Sync_Delete s2 [Key ''a''] = Inr s3
      \<and> Sync_Size s3 = 1
      \<and> Sync_Get s3 (Key ''a'') = 0"
proof -
  define s1 :: "(string, int) Sync"
    where "s1 = \<lparr>rw = Unlocked, data = Some \<lparr>found = [''a'' \<mapsto> 1], lost = []\<rparr>\<rparr>"
  define s2 :: "(string, int) Sync"
    where "s2 = \<lparr>rw = Unlocked, data = Some \<lparr>found = [''a'' \<mapsto> 1, ''b'' \<mapsto> 2], lost = []\<rparr>\<rparr>"
  define s3 :: "(string, int) Sync"
    where "s3 = \<lparr>rw = Unlocked, data = Some \<lparr>found = [''a'' \<mapsto> 1, ''b'' \<mapsto> 2](''a'' := None), lost = []\<rparr>\<rparr>"
  have c1: "Sync_Set NewSync (Key ''a'') (1::int) = Inr s1"
    by (simp add: Sync_Set_def Sync_set_def put_entry_def assign_def NewSync_def no_entries_def s1_def
        rw_Lock_def rw_Unlock_def and_then_def)
  have c2: "Sync_Set s1 (Key ''b'') 2 = Inr s2"
    by (simp add: Sync_Set_def Sync_set_def put_entry_def assign_def s1_def s2_def
        rw_Lock_def rw_Unlock_def and_then_def)
  have h2: "held s2 = \<lparr>found = [''a'' \<mapsto> 1, ''b'' \<mapsto> 2], lost = []\<rparr>"
    by (simp add: s2_def held_def)
  have sl2: "slots (held s2) = {Under ''a'', Under ''b''}"
    unfolding h2 by (auto simp: slots_def)
  have c3: "\<forall>ks. enumerates ks (held s2) \<longrightarrow>
            (\<exists>keys. Sync_Keys s2 ks = Inr (keys, s2) \<and> length keys = 2
                  \<and> set keys = {Key ''a'', Key ''b''})"
  proof (intro allI impI)
    fix ks assume e: "enumerates ks (held s2)"
    have "rw s2 = Unlocked" by (simp add: s2_def)
    then have "Sync_Keys s2 ks = Inr (map slot_key ks, s2)" using e by (rule Sync_Keys_eq)
    moreover have "set ks = {Under ''a'', Under ''b''}" using e sl2 by (simp add: enumerates_def)
    then have "set (map slot_key ks) = {Key ''a'', Key ''b''}"
      by (simp add: slot_key_def)
    moreover have "length ks = 2"
      using enumerates_len [OF e] by (simp add: len_def h2)
    ultimately show "\<exists>keys. Sync_Keys s2 ks = Inr (keys, s2) \<and> length keys = 2
        \<and> set keys = {Key ''a'', Key ''b''}"
      by simp
  qed
  have c4: "enumerates [Under ''a'', Under ''b''] (held s2)" using sl2 by (simp add: enumerates_def)
  have c5: "Sync_Get s2 (Key ''a'') = 1" by (simp add: Sync_Get_def index_def lookup_def h2)
  have c6: "Sync_Delete s2 [Key ''a''] = Inr s3"
    by (simp add: Sync_Delete_def drop_entry_def remove_def s2_def s3_def rw_Lock_def rw_Unlock_def and_then_def)
  have h3: "held s3 = \<lparr>found = [''a'' \<mapsto> 1, ''b'' \<mapsto> 2](''a'' := None), lost = []\<rparr>"
    by (simp add: s3_def held_def)
  have d3: "dom (found (held s3)) = {''b''}" unfolding h3 by auto
  have c7: "Sync_Size s3 = 1" by (simp add: Sync_Size_def len_def d3) (simp add: h3)
  have c8: "Sync_Get s3 (Key ''a'') = 0" by (simp add: Sync_Get_def index_def lookup_def h3)
  show ?thesis
    using c1 c2 c3 c4 c5 c6 c7 c8
    by (intro exI [where x = s1] exI [where x = s2] exI [where x = s3] conjI)
qed

text \<open>The same run with the keys visited in the order \<open>a\<close>, \<open>b\<close>.\<close>

theorem Sync_scenario_witness:
  "\<exists>s1 s2 keys. Sync_Set NewSync (Key ''a'') (1::int) = Inr s1
      \<and> Sync_Set s1 (Key ''b'') 2 = Inr s2
      \<and> Sync_Keys s2 [Under ''a'', Under ''b''] = Inr (keys, s2)
      \<and> length keys = 2
      \<and> set keys = {Key ''a'', Key ''b''}"
proof -
  from Sync_scenario obtain s1 s2 :: "(string, int) Sync"
    where 1: "Sync_Set NewSync (Key ''a'') (1::int) = Inr s1"
    and 2: "Sync_Set s1 (Key ''b'') 2 = Inr s2"
    and 3: "\<forall>ks. enumerates ks (held s2) \<longrightarrow>
            (\<exists>keys. Sync_Keys s2 ks = Inr (keys, s2) \<and> length keys = 2
                \<and> set keys = {Key ''a'', Key ''b''})"
    and 4: "enumerates [Under ''a'', Under ''b''] (held s2)"
    by (elim exE conjE)
  from 3 [rule_format, OF 4] obtain keys
    where "Sync_Keys s2 [Under ''a'', Under ''b''] = Inr (keys, s2)" "length keys = 2"
      "set keys = {Key ''a'', Key ''b''}"
    by (elim exE conjE)
  with 1 2 show ?thesis
    by (intro exI [where x = s1] exI [where x = s2] exI [where x = keys]) simp
qed

section \<open>The helpers on plain maps, and the set\<close>

text \<open>
  Claim C5. For a map \<open>m\<close> on the heap, \<^verbatim>\<open>Filter(m, test)\<close> returns a map that did not
  exist before, whose entries are exactly the entries of \<open>m\<close> that satisfy \<open>test\<close>: the
  same lookups under the keys that equal themselves, and the same values under \<open>NaN\<close>,
  each as often as in \<open>m\<close>. So it has at most as many entries as \<open>m\<close>. \<open>m\<close> is unchanged.
  \<^verbatim>\<open>Filter(nil, test)\<close> returns nil.
\<close>

theorem Filter_keeps_exactly_the_passing_entries:
  assumes "allocated h (MapAt a)" and "enumerates ks (entries h (MapAt a))"
  shows "\<exists>h' r. Filter h (MapAt a) test ks = Inr (h', MapAt r)
      \<and> r \<noteq> a \<and> \<not> allocated h (MapAt r) \<and> allocated h' (MapAt r)
      \<and> (\<forall>k v. lookup (entries h' (MapAt r)) (Key k) = Some v
            \<longleftrightarrow> (lookup (entries h (MapAt a)) (Key k) = Some v \<and> test (Key k) v))
      \<and> mset (lost (entries h' (MapAt r))) = mset (filter (test NaN) (lost (entries h (MapAt a))))
      \<and> same_entries (entries h' (MapAt r)) (passing test (entries h (MapAt a)))
      \<and> len (entries h' (MapAt r)) \<le> len (entries h (MapAt a))
      \<and> entries h' (MapAt a) = entries h (MapAt a)
      \<and> Filter h NilMap test ks = Inr (h, NilMap)"
proof -
  let ?c = "cells h a"
  have a: "a < next_addr h" and ks: "enumerates ks ?c"
    using assms by (simp_all add: allocated_def entries_def)
  have "finite (dom (found ?c))"
    using enumerates_under [OF ks] by (metis finite_set finite_imageI finite_vimageI inj_on_def slot.inject(1) vimage_def)
  moreover have "dom (found (passing test ?c)) \<subseteq> dom (found ?c)"
    by (auto simp: passing_def split: option.splits)
  ultimately have le1: "card (dom (found (passing test ?c))) \<le> card (dom (found ?c))"
    by (rule card_mono)
  have ms: "mset (filter (test NaN) (map (nth (lost ?c)) (nan_slots ks))) = mset (filter (test NaN) (lost ?c))"
    using enumerates_lost [OF ks] by (metis mset_filter)
  then have "length (filter (test NaN) (map (nth (lost ?c)) (nan_slots ks))) = length (filter (test NaN) (lost ?c))"
    by (metis size_mset)
  then have le2: "length (filter (test NaN) (map (nth (lost ?c)) (nan_slots ks))) \<le> length (lost ?c)"
    by simp
  have iff: "\<And>k v. found (passing test ?c) k = Some v \<longleftrightarrow> (found ?c k = Some v \<and> test (Key k) v)"
    by (auto simp: passing_def split: option.splits)
  have pl: "lost (passing test ?c) = filter (test NaN) (lost ?c)"
    by (simp add: passing_def)
  show ?thesis
    unfolding Filter_eq [OF a ks]
    using a le1 le2 iff ms pl
    by (auto simp: allocated_def entries_def Filter_def lookup_def len_def same_entries_def)
qed

text \<open>Filtering the first of \<open>two_maps\<close> for the values above 2.\<close>

theorem Filter_witness:
  "\<exists>h' r. Filter two_maps (MapAt 0) (\<lambda>k v. 2 < v) [Under 1, Under 3] = Inr (h', MapAt r)
      \<and> r \<noteq> 0
      \<and> lookup (entries h' (MapAt r)) (Key 3) = Some 4
      \<and> lookup (entries h' (MapAt r)) (Key 1) = None
      \<and> len (entries h' (MapAt r)) \<le> len (entries two_maps (MapAt 0))"
proof -
  have a: "allocated two_maps (MapAt 0)"
    by (simp add: allocated_def two_maps_def)
  have e: "enumerates [Under 1, Under 3] (entries two_maps (MapAt 0))"
    by (auto simp: enumerates_def slots_def entries_def two_maps_def)
  have v: "lookup (entries two_maps (MapAt 0)) (Key 1) = Some 2"
    "lookup (entries two_maps (MapAt 0)) (Key 3) = Some 4"
    by (simp_all add: entries_def two_maps_def lookup_def)
  from Filter_keeps_exactly_the_passing_entries [OF a e, of "\<lambda>k v. 2 < v"]
  obtain h' r where f: "Filter two_maps (MapAt 0) (\<lambda>k v. 2 < v) [Under 1, Under 3] = Inr (h', MapAt r)"
    and r: "r \<noteq> 0"
    and iff: "\<forall>k v. lookup (entries h' (MapAt r)) (Key k) = Some v
        \<longleftrightarrow> (lookup (entries two_maps (MapAt 0)) (Key k) = Some v \<and> 2 < v)"
    and le: "len (entries h' (MapAt r)) \<le> len (entries two_maps (MapAt 0))"
    by (elim exE conjE)
  have 3: "lookup (entries h' (MapAt r)) (Key 3) = Some 4"
    using iff [rule_format, of 3 4] v by simp
  have "lookup (entries h' (MapAt r)) (Key 1) \<noteq> Some x" for x
    using iff [rule_format, of 1 x] v by simp
  then have 1: "lookup (entries h' (MapAt r)) (Key 1) = None"
    by (cases "lookup (entries h' (MapAt r)) (Key 1)") auto
  show ?thesis using f r 3 1 le by (intro exI [where x = h'] exI [where x = r]) simp
qed

text \<open>
  Claim C6. For a map \<open>m\<close> on the heap, \<^verbatim>\<open>Clone(m)\<close> returns a map \<open>r\<close> that did not exist
  before, with the entries of \<open>m\<close>, and leaves \<open>m\<close> as it was. The two are independent: a
  write or a delete through \<open>r\<close> changes \<open>r\<close> and leaves \<open>m\<close> alone, and a write or a delete
  through \<open>m\<close> changes \<open>m\<close> and leaves \<open>r\<close> alone. \<^verbatim>\<open>Clone(nil)\<close> returns nil.
\<close>

theorem Clone_is_equal_and_independent:
  assumes "allocated h (MapAt a)" and "enumerates ks (entries h (MapAt a))"
  shows "\<exists>h' r. Clone h (MapAt a) ks = Inr (h', MapAt r)
      \<and> r \<noteq> a \<and> \<not> allocated h (MapAt r) \<and> allocated h' (MapAt r)
      \<and> same_entries (entries h' (MapAt r)) (entries h (MapAt a))
      \<and> entries h' (MapAt a) = entries h (MapAt a)
      \<and> (\<forall>k v. \<exists>h''. store h' (MapAt r) k v = Inr h''
            \<and> entries h'' (MapAt r) = assign (entries h' (MapAt r)) k v
            \<and> entries h'' (MapAt a) = entries h (MapAt a))
      \<and> (\<forall>k. entries (delete h' (MapAt r) k) (MapAt r) = remove (entries h' (MapAt r)) k
            \<and> entries (delete h' (MapAt r) k) (MapAt a) = entries h (MapAt a))
      \<and> (\<forall>k v. \<exists>h''. store h' (MapAt a) k v = Inr h''
            \<and> entries h'' (MapAt a) = assign (entries h (MapAt a)) k v
            \<and> entries h'' (MapAt r) = entries h' (MapAt r))
      \<and> (\<forall>k. entries (delete h' (MapAt a) k) (MapAt a) = remove (entries h (MapAt a)) k
            \<and> entries (delete h' (MapAt a) k) (MapAt r) = entries h' (MapAt r))
      \<and> Clone h NilMap ks = Inr (h, NilMap)"
proof -
  have a: "a < next_addr h" and ks: "enumerates ks (cells h a)"
    using assms by (simp_all add: allocated_def entries_def)
  show ?thesis
    unfolding Clone_eq [OF a ks]
    using a enumerates_lost [OF ks]
    by (auto simp: allocated_def entries_def store_def delete_def Clone_def same_entries_def)
qed

text \<open>
  Cloning the map of \<open>nan_map\<close>, which has an entry under \<open>NaN\<close>, then deleting a key from
  one side.
\<close>

theorem Clone_witness:
  "\<exists>h' r. Clone nan_map (MapAt 0) [NthNaN 0, Under 1] = Inr (h', MapAt r)
      \<and> r \<noteq> 0
      \<and> same_entries (entries h' (MapAt r)) (entries nan_map (MapAt 0))
      \<and> lookup (entries (delete h' (MapAt r) (Key 1)) (MapAt 0)) (Key 1) = Some 10
      \<and> lookup (entries (delete h' (MapAt 0) (Key 1)) (MapAt r)) (Key 1) = Some 10"
proof -
  have a: "allocated nan_map (MapAt 0)"
    by (simp add: allocated_def nan_map_def)
  have e: "enumerates [NthNaN 0, Under 1] (entries nan_map (MapAt 0))"
    by (auto simp: enumerates_def slots_def entries_def nan_map_def)
  have v: "lookup (entries nan_map (MapAt 0)) (Key 1) = Some 10"
    by (simp add: entries_def nan_map_def lookup_def)
  from Clone_is_equal_and_independent [OF a e] obtain h' r
    where c: "Clone nan_map (MapAt 0) [NthNaN 0, Under 1] = Inr (h', MapAt r)"
    and r: "r \<noteq> 0"
    and s: "same_entries (entries h' (MapAt r)) (entries nan_map (MapAt 0))"
    and m: "entries h' (MapAt 0) = entries nan_map (MapAt 0)"
    and d1: "\<forall>k. entries (delete h' (MapAt r) k) (MapAt r) = remove (entries h' (MapAt r)) k
            \<and> entries (delete h' (MapAt r) k) (MapAt 0) = entries nan_map (MapAt 0)"
    and d2: "\<forall>k. entries (delete h' (MapAt 0) k) (MapAt 0) = remove (entries nan_map (MapAt 0)) k
            \<and> entries (delete h' (MapAt 0) k) (MapAt r) = entries h' (MapAt r)"
    by (elim exE conjE)
  have "lookup (entries h' (MapAt r)) (Key 1) = Some 10"
    using s v by (simp add: same_entries_def lookup_def)
  then show ?thesis
    using c r s v d1 [rule_format, of "Key 1"] d2 [rule_format, of "Key 1"]
    by (intro exI [where x = h'] exI [where x = r]) simp
qed







end
